theory Spec2Isabelle
  imports Main
begin

unbundle bit_operations_syntax

section \<open>Formula model\<close>

text \<open>
  Tester.py represents a literal as a Python int (unbounded), a clause as a list of
  literals and a formula as a list of clauses.
\<close>

type_synonym literal = int
type_synonym clause = "literal list"
type_synonym formula = "clause list"

text \<open>The exceptions the solvers can raise.\<close>

datatype error = ValueError | TimeoutError | RecursionError

section \<open>The simplification primitive of dpll_solver\<close>

text \<open>
  \<^verbatim>\<open>
  def simplify(frm, lit):
      out = []
      for c in frm:
          if lit in c:
              continue
          if -lit in c:
              c = [l for l in c if l != -lit]
          out.append(c)
      return out
  \<close>
  The \<open>for\<close> loop is a recursion over the clauses that carries the list \<open>out\<close>.
\<close>

fun simplify_loop :: "formula \<Rightarrow> literal \<Rightarrow> formula \<Rightarrow> formula" where
  "simplify_loop [] lit out = out"
| "simplify_loop (c # frm) lit out =
     (if lit \<in> set c then simplify_loop frm lit out
      else if - lit \<in> set c then simplify_loop frm lit (out @ [filter (\<lambda>l. l \<noteq> - lit) c])
      else simplify_loop frm lit (out @ [c]))"

definition simplify :: "formula \<Rightarrow> literal \<Rightarrow> formula" where
  "simplify frm lit = simplify_loop frm lit []"

text \<open>The variables that occur in a formula: the magnitudes of its literals.\<close>

definition vars :: "formula \<Rightarrow> int set" where
  "vars frm = abs ` set (concat frm)"

text \<open>The size of a formula: one for every clause and one for every literal occurrence.\<close>

definition fsize :: "formula \<Rightarrow> nat" where
  "fsize frm = sum_list (map (\<lambda>c. Suc (length c)) frm)"

subsection \<open>What the loop computes\<close>

lemma simplify_loop_acc:
  "simplify_loop frm lit out = out @ simplify_loop frm lit []"
proof (induction frm arbitrary: out)
  case Nil
  show ?case by simp
next
  case (Cons c frm)
  have a: "simplify_loop frm lit (out @ [d]) = out @ [d] @ simplify_loop frm lit []" for d
    using Cons.IH [of "out @ [d]"] by simp
  have b: "simplify_loop frm lit [d] = [d] @ simplify_loop frm lit []" for d
    using Cons.IH [of "[d]"] by simp
  show ?case
    using Cons.IH [of out] by (simp add: a b)
qed

lemma simplify_Nil: "simplify [] lit = []"
  by (simp add: simplify_def)

lemma simplify_Cons:
  "simplify (c # frm) lit =
     (if lit \<in> set c then simplify frm lit
      else if - lit \<in> set c then filter (\<lambda>l. l \<noteq> - lit) c # simplify frm lit
      else c # simplify frm lit)"
  using simplify_loop_acc [of frm lit "[filter (\<lambda>l. l \<noteq> - lit) c]"]
    simplify_loop_acc [of frm lit "[c]"]
  by (simp add: simplify_def)

lemma simplify_map_filter:
  "simplify frm lit =
     map (\<lambda>c. if - lit \<in> set c then filter (\<lambda>l. l \<noteq> - lit) c else c)
       (filter (\<lambda>c. lit \<notin> set c) frm)"
  by (induction frm) (simp_all add: simplify_Nil simplify_Cons)

lemma simplify_clause_free:
  "c \<in> set (simplify frm lit) \<Longrightarrow> lit \<notin> set c \<and> - lit \<notin> set c"
  by (induction frm) (auto simp: simplify_Nil simplify_Cons split: if_splits)

lemma simplify_unchanged:
  "\<forall>c \<in> set frm. lit \<notin> set c \<and> - lit \<notin> set c \<Longrightarrow> simplify frm lit = frm"
  by (induction frm) (simp_all add: simplify_Nil simplify_Cons)

lemma simplify_twice: "simplify (simplify frm lit) lit = simplify frm lit"
  by (rule simplify_unchanged) (blast dest: simplify_clause_free)

lemma simplify_clause_origin:
  "c \<in> set (simplify frm lit) \<Longrightarrow> \<exists>d \<in> set frm. set c \<subseteq> set d"
  by (induction frm) (auto simp: simplify_Nil simplify_Cons split: if_splits)

lemma vars_simplify_subset: "vars (simplify frm lit) \<subseteq> vars frm"
proof
  fix v
  assume "v \<in> vars (simplify frm lit)"
  then obtain c l where c: "c \<in> set (simplify frm lit)" and l: "l \<in> set c" and v: "v = \<bar>l\<bar>"
    by (auto simp: vars_def)
  from simplify_clause_origin [OF c] l obtain d where "d \<in> set frm" and "l \<in> set d"
    by blast
  with v show "v \<in> vars frm" by (auto simp: vars_def)
qed

lemma vars_simplify_free: "\<bar>lit\<bar> \<notin> vars (simplify frm lit)"
proof
  assume "\<bar>lit\<bar> \<in> vars (simplify frm lit)"
  then obtain c l where c: "c \<in> set (simplify frm lit)" and l: "l \<in> set c" and e: "\<bar>l\<bar> = \<bar>lit\<bar>"
    by (auto simp: vars_def)
  from e have "l = lit \<or> l = - lit" by arith
  with simplify_clause_free [OF c] l show False by blast
qed

lemma vars_simplify_less:
  assumes "\<bar>lit\<bar> \<in> vars frm"
  shows "vars (simplify frm lit) \<subset> vars frm"
  using assms vars_simplify_subset [of frm lit] vars_simplify_free [of lit frm] by blast

lemma fsize_simplify_le: "fsize (simplify frm lit) \<le> fsize frm"
proof (induction frm)
  case Nil
  show ?case by (simp add: simplify_Nil)
next
  case (Cons c frm)
  have "length (filter (\<lambda>l. l \<noteq> - lit) c) + fsize (simplify frm lit) \<le> length c + fsize frm"
    using Cons by (intro add_mono) simp_all
  with Cons show ?case by (simp add: fsize_def simplify_Cons)
qed

lemma fsize_simplify_less:
  assumes "c \<in> set frm" and "lit \<in> set c \<or> - lit \<in> set c"
  shows "fsize (simplify frm lit) < fsize frm"
  using assms
proof (induction frm)
  case Nil
  then show ?case by simp
next
  case (Cons d frm)
  have le: "fsize (simplify frm lit) \<le> fsize frm" by (rule fsize_simplify_le)
  have flt: "length (filter (\<lambda>l. l \<noteq> - lit) d) + fsize (simplify frm lit) < length d + fsize frm"
    if "- lit \<in> set d"
    using le length_filter_less [OF that, of "\<lambda>l. l \<noteq> - lit"] by simp
  show ?case
  proof (cases "c = d")
    case True
    with Cons.prems le flt show ?thesis
      by (auto simp: fsize_def simplify_Cons)
  next
    case False
    with Cons have lt: "fsize (simplify frm lit) < fsize frm" by simp
    have "length (filter (\<lambda>l. l \<noteq> - lit) d) + fsize (simplify frm lit) < length d + fsize frm"
      using lt by (intro add_le_less_mono) simp_all
    with lt show ?thesis by (simp add: fsize_def simplify_Cons)
  qed
qed

section \<open>dpll_solver\<close>

text \<open>
  \<^verbatim>\<open>
  while True:
      units = [c[0] for c in formula if len(c) == 1]
      if not units:
          break
      for u in units:
          formula = simplify(formula, u)
  \<close>
  The list \<open>units\<close> is taken once per round of the \<open>while\<close> loop; the inner
  \<open>for\<close> loop then simplifies by each of its literals in turn.
\<close>

definition units_of :: "formula \<Rightarrow> literal list" where
  "units_of formula = map hd (filter (\<lambda>c. length c = 1) formula)"

definition simplify_all :: "literal list \<Rightarrow> formula \<Rightarrow> formula" where
  "simplify_all us formula = fold (\<lambda>u f. simplify f u) us formula"

lemma fsize_simplify_all_le: "fsize (simplify_all us formula) \<le> fsize formula"
proof (induction us arbitrary: formula)
  case Nil
  show ?case by (simp add: simplify_all_def)
next
  case (Cons u us)
  have "fsize (simplify_all us (simplify formula u)) \<le> fsize (simplify formula u)"
    using Cons [of "simplify formula u"] .
  also have "\<dots> \<le> fsize formula" by (rule fsize_simplify_le)
  finally show ?case by (simp add: simplify_all_def)
qed

lemma units_of_in_formula: "u \<in> set (units_of formula) \<Longrightarrow> [u] \<in> set formula"
proof -
  assume "u \<in> set (units_of formula)"
  then obtain c where c: "c \<in> set formula" and l: "length c = 1" and u: "u = hd c"
    by (auto simp: units_of_def)
  from l u have "c = [u]" by (cases c) simp_all
  with c show ?thesis by simp
qed

lemma fsize_unit_round:
  assumes "units_of formula \<noteq> []"
  shows "fsize (simplify_all (units_of formula) formula) < fsize formula"
proof -
  from assms obtain u us where us: "units_of formula = u # us" by (cases "units_of formula") auto
  then have "[u] \<in> set formula" by (intro units_of_in_formula) simp
  then have "fsize (simplify formula u) < fsize formula"
    by (rule fsize_simplify_less) simp
  moreover have "fsize (simplify_all us (simplify formula u)) \<le> fsize (simplify formula u)"
    by (rule fsize_simplify_all_le)
  ultimately show ?thesis by (simp add: us simplify_all_def)
qed

function unit_propagate :: "formula \<Rightarrow> formula" where
  "unit_propagate formula =
     (if units_of formula = [] then formula
      else unit_propagate (simplify_all (units_of formula) formula))"
  by pat_completeness auto
termination
  by (relation "measure fsize") (simp_all add: fsize_unit_round)

declare unit_propagate.simps [simp del]

text \<open>
  \<^verbatim>\<open>
  lits = [l for c in formula for l in c]
  pures = [v for v in set(abs(l) for l in lits) if (v in lits) ^ (-v in lits)]
  for v in pures:
      lit = v if v in lits else -v
      formula = simplify(formula, lit)
  \<close>
  Python does not fix the order in which a set is iterated. The model enumerates the
  variables in the order of their first occurrence; \<open>pure_pass_any_order\<close> below shows
  that the formula the loop leaves does not depend on that order.
\<close>

definition pure_vars :: "literal list \<Rightarrow> int list" where
  "pure_vars lits =
     filter (\<lambda>v. (v \<in> set lits) \<noteq> (- v \<in> set lits)) (rev (remdups (rev (map abs lits))))"

definition pure_lit :: "literal list \<Rightarrow> int \<Rightarrow> literal" where
  "pure_lit lits v = (if v \<in> set lits then v else - v)"

definition pure_pass :: "literal list \<Rightarrow> int list \<Rightarrow> formula \<Rightarrow> formula" where
  "pure_pass lits pures formula = fold (\<lambda>v f. simplify f (pure_lit lits v)) pures formula"

definition pure_eliminate :: "formula \<Rightarrow> formula" where
  "pure_eliminate formula = pure_pass (concat formula) (pure_vars (concat formula)) formula"

lemma fsize_pure_pass_le: "fsize (pure_pass lits pures formula) \<le> fsize formula"
proof (induction pures arbitrary: formula)
  case Nil
  show ?case by (simp add: pure_pass_def)
next
  case (Cons v pures)
  have "fsize (pure_pass lits pures (simplify formula (pure_lit lits v)))
          \<le> fsize (simplify formula (pure_lit lits v))"
    using Cons [of "simplify formula (pure_lit lits v)"] .
  also have "\<dots> \<le> fsize formula" by (rule fsize_simplify_le)
  finally show ?case by (simp add: pure_pass_def)
qed

lemma fsize_unit_propagate_le: "fsize (unit_propagate formula) \<le> fsize formula"
proof (induction formula rule: unit_propagate.induct)
  case (1 formula)
  show ?case
  proof (cases "units_of formula = []")
    case True
    then show ?thesis by (simp add: unit_propagate.simps [of formula])
  next
    case False
    with 1 have "fsize (unit_propagate (simplify_all (units_of formula) formula))
        \<le> fsize (simplify_all (units_of formula) formula)" by simp
    also have "\<dots> \<le> fsize formula" by (rule fsize_simplify_all_le)
    finally show ?thesis using False by (simp add: unit_propagate.simps [of formula])
  qed
qed

text \<open>
  \<^verbatim>\<open>
  if not formula:
      return True
  if any(len(c) == 0 for c in formula):
      return False
  lit = formula[0][0]
  return (dpll_solver(simplify(formula, lit)) or
          dpll_solver(simplify(formula, -lit)))
  \<close>
  \<open>prepare\<close> is the formula after the two loops above. \<open>formula[0][0]\<close> is read only
  where the formula has a first clause and that clause has a first literal. Python's
  \<open>or\<close> evaluates its second operand only when the first is false.
\<close>

definition prepare :: "formula \<Rightarrow> formula" where
  "prepare formula = pure_eliminate (unit_propagate formula)"

lemma fsize_prepare_le: "fsize (prepare formula) \<le> fsize formula"
  unfolding prepare_def pure_eliminate_def
  using fsize_pure_pass_le fsize_unit_propagate_le by (rule order_trans)

lemma fsize_branch_less:
  assumes "frm \<noteq> []" and "\<not> list_ex (\<lambda>c. length c = 0) frm"
  shows "fsize (simplify frm (hd (hd frm))) < fsize frm"
    and "fsize (simplify frm (- hd (hd frm))) < fsize frm"
proof -
  from assms obtain c cs where f: "frm = c # cs" by (cases frm) auto
  with assms obtain l ls where c: "c = l # ls" by (cases c) auto
  have m: "c \<in> set frm" by (simp add: f)
  have h: "hd (hd frm) = l" by (simp add: f c)
  show "fsize (simplify frm (hd (hd frm))) < fsize frm"
    by (rule fsize_simplify_less [OF m]) (simp add: h c)
  show "fsize (simplify frm (- hd (hd frm))) < fsize frm"
    by (rule fsize_simplify_less [OF m]) (simp add: h c)
qed

function dpll_solver :: "formula \<Rightarrow> bool" where
  "dpll_solver formula =
     (if prepare formula = [] then True
      else if list_ex (\<lambda>c. length c = 0) (prepare formula) then False
      else if dpll_solver (simplify (prepare formula) (hd (hd (prepare formula)))) then True
      else dpll_solver (simplify (prepare formula) (- hd (hd (prepare formula)))))"
  by pat_completeness auto
termination
proof (relation "measure fsize")
  show "wf (measure fsize)" by simp
next
  fix formula :: formula
  assume a: "prepare formula \<noteq> []" "\<not> list_ex (\<lambda>c. length c = 0) (prepare formula)"
  have "fsize (simplify (prepare formula) (hd (hd (prepare formula)))) < fsize (prepare formula)"
    using a by (rule fsize_branch_less)
  with fsize_prepare_le [of formula]
  show "(simplify (prepare formula) (hd (hd (prepare formula))), formula) \<in> measure fsize"
    by simp
next
  fix formula :: formula
  assume a: "prepare formula \<noteq> []" "\<not> list_ex (\<lambda>c. length c = 0) (prepare formula)"
  have "fsize (simplify (prepare formula) (- hd (hd (prepare formula)))) < fsize (prepare formula)"
    using a by (rule fsize_branch_less)
  with fsize_prepare_le [of formula]
  show "(simplify (prepare formula) (- hd (hd (prepare formula))), formula) \<in> measure fsize"
    by simp
qed

declare dpll_solver.simps [simp del]

subsection \<open>simplify, clause by clause\<close>

text \<open>
  The specification's description of one clause under \<open>simplify\<close>: a clause that
  contains the literal is dropped; otherwise a clause that contains the negated literal
  is kept with that literal removed; otherwise the clause is kept as it is.
\<close>

definition simplify_clause :: "literal \<Rightarrow> clause \<Rightarrow> clause option" where
  "simplify_clause l c =
     (if l \<in> set c then None
      else if - l \<in> set c then Some (removeAll (- l) c)
      else Some c)"

lemma removeAll_as_filter: "removeAll a xs = filter (\<lambda>l. l \<noteq> a) xs"
  by (induction xs) auto

text \<open>
  C4. For every formula and literal, \<open>simplify\<close> treats each clause as
  \<open>simplify_clause\<close> says (dropped when it contains the literal, shortened by the
  negated literal when it contains that, unchanged otherwise), and the clauses it keeps
  stand in the order they had: \<open>List.map_filter\<close> goes through the formula from left
  to right.
\<close>

theorem simplify_clausewise:
  "simplify F l = List.map_filter (simplify_clause l) F"
proof (induction F)
  case Nil
  show ?case by (simp add: simplify_Nil List.map_filter_simps)
next
  case (Cons c F)
  then show ?case
    by (simp add: simplify_Cons List.map_filter_simps simplify_clause_def removeAll_as_filter)
qed

text \<open>
  C9. For a literal that occurs in the formula, simplifying a second time by the same
  literal changes nothing.
\<close>

theorem simplify_idempotent:
  "l \<in> set (concat F) \<Longrightarrow> simplify (simplify F l) l = simplify F l"
  by (rule simplify_twice)

theorem simplify_idempotent_witness:
  "(1::int) \<in> set (concat [[1, 2], [- 1, 3], [2, 3]]) \<and>
   simplify (simplify [[1, 2], [- 1, 3], [2, 3]] 1) 1 = simplify [[1, 2], [- 1, 3], [2, 3]] 1 \<and>
   simplify [[1, 2], [- 1, 3], [2, 3]] 1 = [[3], [2, 3]]"
  using simplify_idempotent [of 1 "[[1, 2], [- 1, 3], [2, 3]]"]
  by (simp add: simplify_Cons simplify_Nil)

subsection \<open>Every simplification removes a variable\<close>

lemma vars_simplify_all_subset: "vars (simplify_all us F) \<subseteq> vars F"
proof (induction us arbitrary: F)
  case Nil
  show ?case by (simp add: simplify_all_def)
next
  case (Cons u us)
  have "vars (simplify_all us (simplify F u)) \<subseteq> vars (simplify F u)"
    using Cons [of "simplify F u"] .
  also have "\<dots> \<subseteq> vars F" by (rule vars_simplify_subset)
  finally show ?case by (simp add: simplify_all_def)
qed

lemma vars_unit_less:
  assumes "[u] \<in> set F"
  shows "vars (simplify F u) \<subset> vars F"
proof (rule vars_simplify_less)
  from assms show "\<bar>u\<bar> \<in> vars F" by (force simp: vars_def)
qed

lemma vars_unit_round_less:
  assumes "units_of F \<noteq> []"
  shows "vars (simplify_all (units_of F) F) \<subset> vars F"
proof -
  from assms obtain u us where us: "units_of F = u # us" by (cases "units_of F") auto
  then have "[u] \<in> set F" by (intro units_of_in_formula) simp
  then have "vars (simplify F u) \<subset> vars F" by (rule vars_unit_less)
  moreover have "vars (simplify_all us (simplify F u)) \<subseteq> vars (simplify F u)"
    by (rule vars_simplify_all_subset)
  ultimately show ?thesis by (auto simp: us simplify_all_def)
qed

lemma vars_branch_less:
  assumes "F \<noteq> []" and "\<not> list_ex (\<lambda>c. length c = 0) F"
  shows "vars (simplify F (hd (hd F))) \<subset> vars F \<and> vars (simplify F (- hd (hd F))) \<subset> vars F"
proof -
  from assms obtain c cs where f: "F = c # cs" by (cases F) auto
  with assms obtain l ls where c: "c = l # ls" by (cases c) auto
  have v: "\<bar>hd (hd F)\<bar> \<in> vars F" by (simp add: f c vars_def)
  then have "\<bar>- hd (hd F)\<bar> \<in> vars F" by simp
  with v show ?thesis by (simp add: vars_simplify_less)
qed

subsection \<open>The phases of one call of dpll_solver\<close>

text \<open>
  The specification's notion of a pure variable: over all literals of the formula it
  occurs with one polarity only.
\<close>

definition pure_in :: "formula \<Rightarrow> int \<Rightarrow> bool" where
  "pure_in F v = ((v \<in> set (concat F)) \<noteq> (- v \<in> set (concat F)))"


lemma simplify_absent_negation:
  assumes "- l \<notin> set (concat F)"
  shows "simplify F l = filter (\<lambda>c. l \<notin> set c) F"
proof -
  have "map (\<lambda>c. if - l \<in> set c then filter (\<lambda>k. k \<noteq> - l) c else c) (filter (\<lambda>c. l \<notin> set c) F)
      = map (\<lambda>c. c) (filter (\<lambda>c. l \<notin> set c) F)"
    using assms by (intro map_cong) auto
  then show ?thesis by (simp add: simplify_map_filter)
qed

lemma pure_pass_filter:
  assumes "\<forall>v \<in> set ps. - pure_lit lits v \<notin> set (concat F)"
  shows "pure_pass lits ps F = filter (\<lambda>c. \<forall>v \<in> set ps. pure_lit lits v \<notin> set c) F"
  using assms
proof (induction ps arbitrary: F)
  case Nil
  show ?case by (simp add: pure_pass_def)
next
  case (Cons v ps)
  let ?G = "filter (\<lambda>c. pure_lit lits v \<notin> set c) F"
  from Cons.prems have s: "simplify F (pure_lit lits v) = ?G"
    by (intro simplify_absent_negation) simp
  have "set (concat ?G) \<subseteq> set (concat F)" by auto
  with Cons.prems have "\<forall>w \<in> set ps. - pure_lit lits w \<notin> set (concat ?G)" by auto
  then have "pure_pass lits ps ?G = filter (\<lambda>c. \<forall>w \<in> set ps. pure_lit lits w \<notin> set c) ?G"
    by (rule Cons.IH)
  moreover have "pure_pass lits (v # ps) F = pure_pass lits ps ?G"
    by (simp add: pure_pass_def s)
  ultimately show ?case by (auto intro: filter_cong)
qed

text \<open>
  The order in which the pure variables are visited does not matter, and neither does a
  repetition: any two enumerations of the same variables leave the same formula.
\<close>

lemma pure_pass_any_order:
  assumes "set ps = set (pure_vars (concat F))" and "set qs = set (pure_vars (concat F))"
  shows "pure_pass (concat F) ps F = pure_pass (concat F) qs F"
proof -
  have neg: "- pure_lit (concat F) v \<notin> set (concat F)" if "v \<in> set (pure_vars (concat F))" for v
    using that by (auto simp: pure_vars_def pure_lit_def)
  have "pure_pass (concat F) ps F = filter (\<lambda>c. \<forall>v \<in> set ps. pure_lit (concat F) v \<notin> set c) F"
    using neg assms(1) by (intro pure_pass_filter) simp
  moreover have "pure_pass (concat F) qs F = filter (\<lambda>c. \<forall>v \<in> set qs. pure_lit (concat F) v \<notin> set c) F"
    using neg assms(2) by (intro pure_pass_filter) simp
  ultimately show ?thesis by (simp add: assms)
qed

lemma set_pure_vars: "set (pure_vars (concat F)) = {v \<in> vars F. pure_in F v}"
  by (auto simp: pure_vars_def vars_def pure_in_def)

lemma pure_clause_iff:
  assumes "c \<in> set F"
  shows "(\<forall>v \<in> set (pure_vars (concat F)). pure_lit (concat F) v \<notin> set c)
     \<longleftrightarrow> list_all (\<lambda>l. \<not> pure_in F \<bar>l\<bar>) c"
proof
  assume a: "\<forall>v \<in> set (pure_vars (concat F)). pure_lit (concat F) v \<notin> set c"
  show "list_all (\<lambda>l. \<not> pure_in F \<bar>l\<bar>) c"
    unfolding list_all_iff
  proof (intro ballI notI)
    fix l
    assume l: "l \<in> set c" and p: "pure_in F \<bar>l\<bar>"
    from l assms have lF: "l \<in> set (concat F)" by auto
    then have "\<bar>l\<bar> \<in> vars F" by (auto simp: vars_def)
    with p have "\<bar>l\<bar> \<in> set (pure_vars (concat F))" by (simp add: set_pure_vars)
    with a have n: "pure_lit (concat F) \<bar>l\<bar> \<notin> set c" by blast
    have "pure_lit (concat F) \<bar>l\<bar> = l"
    proof (cases "0 \<le> l")
      case True
      with lF show ?thesis by (simp add: pure_lit_def)
    next
      case False
      then have e: "- \<bar>l\<bar> = l" by simp
      with lF have "- \<bar>l\<bar> \<in> set (concat F)" by simp
      with p have "\<bar>l\<bar> \<notin> set (concat F)" by (simp add: pure_in_def)
      with e show ?thesis by (simp add: pure_lit_def)
    qed
    with n l show False by simp
  qed
next
  assume a: "list_all (\<lambda>l. \<not> pure_in F \<bar>l\<bar>) c"
  show "\<forall>v \<in> set (pure_vars (concat F)). pure_lit (concat F) v \<notin> set c"
  proof (intro ballI notI)
    fix v
    assume v: "v \<in> set (pure_vars (concat F))" and m: "pure_lit (concat F) v \<in> set c"
    from v have p: "pure_in F v" and "v \<in> vars F" by (simp_all add: set_pure_vars)
    then have "0 \<le> v" by (auto simp: vars_def)
    then have "\<bar>pure_lit (concat F) v\<bar> = v" by (simp add: pure_lit_def)
    with a m p show False by (auto simp: list_all_iff)
  qed
qed

lemma pure_eliminate_filter:
  "pure_eliminate F = filter (list_all (\<lambda>l. \<not> pure_in F \<bar>l\<bar>)) F"
proof -
  have neg: "\<forall>v \<in> set (pure_vars (concat F)). - pure_lit (concat F) v \<notin> set (concat F)"
    by (auto simp: pure_vars_def pure_lit_def)
  have "pure_eliminate F
      = filter (\<lambda>c. \<forall>v \<in> set (pure_vars (concat F)). pure_lit (concat F) v \<notin> set c) F"
    unfolding pure_eliminate_def using neg by (rule pure_pass_filter)
  also have "\<dots> = filter (list_all (\<lambda>l. \<not> pure_in F \<bar>l\<bar>)) F"
    by (rule filter_cong) (simp_all add: pure_clause_iff)
  finally show ?thesis .
qed



subsection \<open>Which steps of dpll_solver remove a variable\<close>

lemma vars_unit_propagate_subset: "vars (unit_propagate F) \<subseteq> vars F"
proof (induction F rule: unit_propagate.induct)
  case (1 formula)
  show ?case
  proof (cases "units_of formula = []")
    case True
    then show ?thesis by (simp add: unit_propagate.simps [of formula])
  next
    case False
    with 1 have "vars (unit_propagate (simplify_all (units_of formula) formula))
        \<subseteq> vars (simplify_all (units_of formula) formula)" by simp
    also have "\<dots> \<subseteq> vars formula" by (rule vars_simplify_all_subset)
    finally show ?thesis using False by (simp add: unit_propagate.simps [of formula])
  qed
qed

lemma vars_pure_eliminate_subset: "vars (pure_eliminate F) \<subseteq> vars F"
  by (auto simp: pure_eliminate_filter vars_def)

lemma vars_prepare_subset: "vars (prepare F) \<subseteq> vars F"
  unfolding prepare_def
  using vars_pure_eliminate_subset vars_unit_propagate_subset by (rule order_trans)

lemma vars_call_less:
  assumes "dpll_solver_rel G F"
  shows "vars G \<subset> vars F"
proof -
  from assms have ne: "prepare F \<noteq> []" "\<not> list_ex (\<lambda>c. length c = 0) (prepare F)"
    and g: "G = simplify (prepare F) (hd (hd (prepare F))) \<or>
      G = simplify (prepare F) (- hd (hd (prepare F)))"
    by (auto simp: dpll_solver_rel.simps)
  from vars_branch_less [OF ne] g have "vars G \<subset> vars (prepare F)" by blast
  with vars_prepare_subset [of F] show ?thesis by blast
qed

text \<open>
  The unit loop takes the list of unit literals once per round and simplifies by each
  of them. On \<open>[[1], [1]]\<close> the list is \<open>[1, 1]\<close>: the first simplification leaves
  the empty formula, and the second one, by the same literal, has no variable left to
  remove. So it is not every single simplification of the unit loop that leaves
  strictly fewer variables.
\<close>

theorem stale_unit_step:
  "units_of [[1], [1]] = [1, 1] \<and>
   simplify_all [1, 1] [[1], [1]] = simplify (simplify [[1], [1]] 1) 1 \<and>
   simplify [[1], [1]] 1 = [] \<and>
   simplify (simplify [[1], [1]] 1) 1 = [] \<and>
   \<not> vars (simplify (simplify [[1], [1]] 1) 1) \<subset> vars (simplify [[1], [1]] 1)"
  by (simp add: units_of_def simplify_all_def simplify_Cons simplify_Nil)

text \<open>
  C10. No clause of \<open>simplify F l\<close> contains \<open>l\<close> or \<open>- l\<close>, so a simplification by
  a literal whose variable occurs in the formula leaves strictly fewer variables, and
  one by a literal whose variable does not occur leaves the formula as it is. The set
  of variables gets strictly smaller at every branching step of \<open>dpll_solver\<close> (the
  literal is the first one of the first clause, for either sign), hence from every call
  of \<open>dpll_solver\<close> to each call it makes; at every simplification by the literal of
  a unit clause of the formula; and at every round of the unit-propagation loop. (A
  round simplifies by every literal of the list it took at its start; a literal of that
  list whose variable an earlier simplification of the round has removed changes
  nothing.)
\<close>

theorem simplify_eliminates_variable:
  "(\<forall>c \<in> set (simplify F l). l \<notin> set c \<and> - l \<notin> set c) \<and>
   (\<bar>l\<bar> \<in> vars F \<longrightarrow> vars (simplify F l) \<subset> vars F) \<and>
   (F \<noteq> [] \<and> \<not> list_ex (\<lambda>c. length c = 0) F \<longrightarrow>
      vars (simplify F (hd (hd F))) \<subset> vars F \<and> vars (simplify F (- hd (hd F))) \<subset> vars F) \<and>
   ([u] \<in> set F \<longrightarrow> vars (simplify F u) \<subset> vars F) \<and>
   (units_of F \<noteq> [] \<longrightarrow> vars (simplify_all (units_of F) F) \<subset> vars F) \<and>
   (\<bar>l\<bar> \<notin> vars F \<longrightarrow> simplify F l = F) \<and>
   (dpll_solver_rel G F \<longrightarrow> vars G \<subset> vars F) \<and>
   (unit_propagate_rel G F \<longrightarrow> vars G \<subset> vars F)"
proof -
  have "simplify F l = F" if "\<bar>l\<bar> \<notin> vars F"
  proof (rule simplify_unchanged, intro ballI)
    fix c
    assume c: "c \<in> set F"
    have "k \<in> set c \<Longrightarrow> \<bar>k\<bar> \<in> vars F" for k using c by (auto simp: vars_def)
    from this [of l] this [of "- l"] that show "l \<notin> set c \<and> - l \<notin> set c" by auto
  qed
  moreover have "vars G \<subset> vars F" if "unit_propagate_rel G F"
    using that vars_unit_round_less [of F] by (auto simp: unit_propagate_rel.simps)
  ultimately show ?thesis
    using simplify_clause_free [of _ F l] vars_simplify_less [of l F] vars_branch_less [of F]
      vars_unit_less [of u F] vars_unit_round_less [of F] vars_call_less [of G F]
    by blast
qed

theorem simplify_eliminates_variable_witness:
  "list_all (\<lambda>c. (2::int) \<notin> set c \<and> - 2 \<notin> set c) (simplify [[1, 2], [- 2, 3], [3], [- 1, - 3]] 2) \<and>
   vars (simplify [[1, 2], [- 2, 3], [3], [- 1, - 3]] 2) \<subset> vars [[1, 2], [- 2, 3], [3], [- 1, - 3]] \<and>
   vars (simplify [[1, 2], [- 2, 3], [3], [- 1, - 3]] 1) \<subset> vars [[1, 2], [- 2, 3], [3], [- 1, - 3]] \<and>
   vars (simplify [[1, 2], [- 2, 3], [3], [- 1, - 3]] (- 1)) \<subset> vars [[1, 2], [- 2, 3], [3], [- 1, - 3]] \<and>
   vars (simplify [[1, 2], [- 2, 3], [3], [- 1, - 3]] 3) \<subset> vars [[1, 2], [- 2, 3], [3], [- 1, - 3]] \<and>
   units_of [[1, 2], [- 2, 3], [3], [- 1, - 3]] = [3] \<and>
   vars (simplify_all (units_of [[1, 2], [- 2, 3], [3], [- 1, - 3]]) [[1, 2], [- 2, 3], [3], [- 1, - 3]])
     \<subset> vars [[1, 2], [- 2, 3], [3], [- 1, - 3]] \<and>
   units_of [[1], [1]] = [1, 1] \<and>
   simplify (simplify [[1], [1]] 1) 1 = simplify [[1], [1]] 1 \<and>
   dpll_solver_rel [[- 2], [2]] [[1, 2], [- 1, - 2], [1, - 2], [- 1, 2]] \<and>
   vars [[- 2], [2]] \<subset> vars [[1, 2], [- 1, - 2], [1, - 2], [- 1, 2]] \<and>
   unit_propagate_rel [[1, 2], [- 1]] [[1, 2], [- 2, 3], [3], [- 1, - 3]] \<and>
   vars [[1, 2], [- 1]] \<subset> vars [[1, 2], [- 2, 3], [3], [- 1, - 3]]"
proof -
  let ?F = "[[1, 2], [- 2, 3], [3], [- 1, - 3 :: int]]"
  let ?X = "[[1, 2], [- 1, - 2], [1, - 2], [- 1, 2 :: int]]"
  have v2: "\<bar>2 :: int\<bar> \<in> vars ?F" by (simp add: vars_def)
  have ne: "?F \<noteq> [] \<and> \<not> list_ex (\<lambda>c. length c = 0) ?F" by simp
  have u: "[3] \<in> set ?F" by simp
  have us: "units_of ?F = [3]" by (simp add: units_of_def)
  have st: "\<bar>1 :: int\<bar> \<notin> vars (simplify [[1], [1]] 1)"
    by (simp add: vars_def simplify_Cons simplify_Nil)
  have d: "units_of [[1], [1 :: int]] = [1, 1]" by (simp add: units_of_def)
  from simplify_eliminates_variable [of "simplify [[1], [1]] 1" 1] st
  have e: "simplify (simplify [[1], [1]] 1) 1 = simplify [[1], [1]] 1" by blast
  have pX: "prepare ?X = ?X"
    by (simp add: prepare_def pure_eliminate_def pure_pass_def pure_vars_def pure_lit_def
        unit_propagate.simps units_of_def simplify_all_def simplify_Cons simplify_Nil)
  have r: "dpll_solver_rel [[- 2], [2]] ?X"
    by (simp add: dpll_solver_rel.simps pX simplify_Cons simplify_Nil)
  from simplify_eliminates_variable [of ?X _ _ "[[- 2], [2]]"] r
  have rv: "vars [[- 2], [2]] \<subset> vars ?X" by blast
  have q: "unit_propagate_rel [[1, 2], [- 1]] ?F"
    by (simp add: unit_propagate_rel.simps us simplify_all_def simplify_Cons simplify_Nil)
  from simplify_eliminates_variable [of ?F _ _ "[[1, 2], [- 1]]"] q
  have qv: "vars [[1, 2], [- 1]] \<subset> vars ?F" by blast
  from simplify_eliminates_variable [of ?F 2 3] v2 ne u us d e r rv q qv
  show ?thesis by (simp add: list_all_iff)
qed

section \<open>brute_force_solver\<close>

text \<open>
  \<^verbatim>\<open>
  def brute_force_solver(formula):
      n = max(abs(l) for c in formula for l in c)
      for mask in range(1 << n):
          if all(
              any((lit > 0) == bool((mask >> (abs(lit)-1)) & 1) for lit in clause)
              for clause in formula
          ):
              return True
      return False
  \<close>
  \<open>max\<close> of an empty sequence raises ValueError, and so does a shift by a negative
  count (the literal 0). \<open>any\<close> and \<open>all\<close> stop at the first element that decides
  them, so an element behind it is never evaluated.
\<close>

definition max_abs_literal :: "formula \<Rightarrow> error + int" where
  "max_abs_literal formula =
     (case map abs (concat formula) of
        [] \<Rightarrow> Inl ValueError
      | a # as \<Rightarrow> Inr (fold max as a))"

definition literal_holds :: "nat \<Rightarrow> literal \<Rightarrow> error + bool" where
  "literal_holds msk lit =
     (if \<bar>lit\<bar> - 1 < 0 then Inl ValueError
      else Inr ((lit > 0) = (drop_bit (nat (\<bar>lit\<bar> - 1)) msk AND 1 \<noteq> 0)))"

fun any_literal :: "nat \<Rightarrow> clause \<Rightarrow> error + bool" where
  "any_literal msk [] = Inr False"
| "any_literal msk (lit # clause) =
     (case literal_holds msk lit of
        Inl e \<Rightarrow> Inl e
      | Inr True \<Rightarrow> Inr True
      | Inr False \<Rightarrow> any_literal msk clause)"

fun all_clauses :: "nat \<Rightarrow> formula \<Rightarrow> error + bool" where
  "all_clauses msk [] = Inr True"
| "all_clauses msk (clause # formula) =
     (case any_literal msk clause of
        Inl e \<Rightarrow> Inl e
      | Inr False \<Rightarrow> Inr False
      | Inr True \<Rightarrow> all_clauses msk formula)"

text \<open>The \<open>for\<close> loop over \<open>range(1 << n)\<close>, from the mask it has reached.\<close>

function mask_loop :: "formula \<Rightarrow> nat \<Rightarrow> nat \<Rightarrow> error + bool" where
  "mask_loop formula msk stop =
     (if msk < stop then
        (case all_clauses msk formula of
           Inl e \<Rightarrow> Inl e
         | Inr True \<Rightarrow> Inr True
         | Inr False \<Rightarrow> mask_loop formula (Suc msk) stop)
      else Inr False)"
  by pat_completeness auto
termination
  by (relation "measure (\<lambda>(formula, msk, stop). stop - msk)") auto

declare mask_loop.simps [simp del]

definition brute_force_solver :: "formula \<Rightarrow> error + bool" where
  "brute_force_solver formula =
     (case max_abs_literal formula of
        Inl e \<Rightarrow> Inl e
      | Inr n \<Rightarrow> mask_loop formula 0 (push_bit (nat n) 1))"

section \<open>dp_solver\<close>

definition TIMEOUT_PER_SOLVER :: nat where
  "TIMEOUT_PER_SOLVER = 30"

definition MAX_DP_STEPS :: nat where
  "MAX_DP_STEPS = 100000"

definition BF_THRESHOLD :: int where
  "BF_THRESHOLD = 20"

text \<open>
  \<^verbatim>\<open>
  sig = frozenset(frozenset(c) for c in fm)
  \<close>
\<close>

definition signature :: "formula \<Rightarrow> int set set" where
  "signature fm = set ` set fm"

text \<open>
  \<^verbatim>\<open>
  for p in pos:
      for q in neg:
          rc = [l for l in p if abs(l)!=x] + [l for l in q if abs(l)!=x]
          S = set(rc)
          if any(-lit in S for lit in S):
              continue
          new.append(list(dict.fromkeys(rc)))
  \<close>
  \<open>dict.fromkeys\<close> inserts the keys in the order of the list, and a key that is there
  already keeps its place; \<open>list\<close> reads the keys back in that order.
\<close>

fun fromkeys_loop :: "int list \<Rightarrow> int list \<Rightarrow> int list" where
  "fromkeys_loop [] keys = keys"
| "fromkeys_loop (l # rc) keys =
     (if l \<in> set keys then fromkeys_loop rc keys else fromkeys_loop rc (keys @ [l]))"

definition fromkeys :: "int list \<Rightarrow> int list" where
  "fromkeys rc = fromkeys_loop rc []"

definition resolvent :: "int \<Rightarrow> clause \<Rightarrow> clause \<Rightarrow> clause" where
  "resolvent x p q = filter (\<lambda>l. \<bar>l\<bar> \<noteq> x) p @ filter (\<lambda>l. \<bar>l\<bar> \<noteq> x) q"

definition has_complement :: "clause \<Rightarrow> bool" where
  "has_complement rc = list_ex (\<lambda>lit. - lit \<in> set rc) rc"

fun neg_loop :: "int \<Rightarrow> clause \<Rightarrow> clause list \<Rightarrow> formula \<Rightarrow> formula" where
  "neg_loop x p [] new = new"
| "neg_loop x p (q # neg) new =
     (if has_complement (resolvent x p q) then neg_loop x p neg new
      else neg_loop x p neg (new @ [fromkeys (resolvent x p q)]))"

fun pos_loop :: "int \<Rightarrow> clause list \<Rightarrow> clause list \<Rightarrow> formula \<Rightarrow> formula" where
  "pos_loop x [] neg new = new"
| "pos_loop x (p # pos) neg new = pos_loop x pos neg (neg_loop x p neg new)"

text \<open>
  \<^verbatim>\<open>
  x = abs(fm[0][0])
  pos = [c for c in fm if x in c]
  neg = [c for c in fm if -x in c]
  rest = [c for c in fm if x not in c and -x not in c]
  new = []
  ...
  return resolve(rest + new, seen, steps)
  \<close>
  \<open>eliminate\<close> is the formula \<open>rest + new\<close> of the recursive call. It is used only
  where \<open>fm\<close> has a first clause with a first literal.
\<close>

definition eliminate :: "formula \<Rightarrow> formula" where
  "eliminate fm =
     (let x = \<bar>hd (hd fm)\<bar>;
          pos = filter (\<lambda>c. x \<in> set c) fm;
          neg = filter (\<lambda>c. - x \<in> set c) fm;
          rest = filter (\<lambda>c. x \<notin> set c \<and> - x \<notin> set c) fm
      in rest @ pos_loop x pos neg [])"

text \<open>
  \<^verbatim>\<open>
  def resolve(fm, seen, steps):
      if time.time() - start > TIMEOUT_PER_SOLVER:
          raise TimeoutError("Timp depasit pentru DP")
      steps[0] += 1
      if steps[0] > MAX_DP_STEPS:
          raise TimeoutError("Limita de pasi depasita pentru DP")
      sig = frozenset(frozenset(c) for c in fm)
      if sig in seen:
          return False
      seen.add(sig)
      if not fm:
          return True
      if any(len(c) == 0 for c in fm):
          return False
      ...
      return resolve(rest + new, seen, steps)
  \<close>
  Every recursive call is the last action of its caller, so one run of \<open>resolve\<close> ends
  at exactly one \<open>return\<close> or \<open>raise\<close>; \<open>dp_exit\<close> names them. The wall clock is a
  parameter: \<open>expired k\<close> says whether \<open>time.time() - start > TIMEOUT_PER_SOLVER\<close> holds
  at the call that finds the step counter at \<open>k\<close>. The set \<open>seen\<close> and the counter
  \<open>steps[0]\<close> are passed along.

  Every call of \<open>resolve\<close> runs inside the call before it, so the call that finds the
  counter at \<open>k\<close> has \<open>k\<close> calls of \<open>resolve\<close> below it on the interpreter's stack.
  The interpreter bounds the depth of that stack: \<open>room\<close> is the number of nested calls
  of \<open>resolve\<close> it has room for when \<open>dp_solver\<close> starts, and the call beyond them
  raises RecursionError.
\<close>

datatype dp_exit =
  Recursion_exceeded | Time_exceeded | Steps_exceeded | Revisited | No_clauses | Empty_clause

function resolve ::
  "nat \<Rightarrow> (nat \<Rightarrow> bool) \<Rightarrow> formula \<Rightarrow> int set set set \<Rightarrow> nat \<Rightarrow> dp_exit" where
  "resolve room expired fm seen steps =
     (if room \<le> steps then Recursion_exceeded
      else if expired steps then Time_exceeded
      else if Suc steps > MAX_DP_STEPS then Steps_exceeded
      else if signature fm \<in> seen then Revisited
      else if fm = [] then No_clauses
      else if list_ex (\<lambda>c. length c = 0) fm then Empty_clause
      else resolve room expired (eliminate fm) (insert (signature fm) seen) (Suc steps))"
  by pat_completeness auto
termination
  by (relation "measure (\<lambda>(room, expired, fm, seen, steps). MAX_DP_STEPS - steps)") auto

declare resolve.simps [simp del]

text \<open>What the caller of \<open>dp_solver\<close> gets for each way \<open>resolve\<close> can end.\<close>

fun outcome :: "dp_exit \<Rightarrow> error + bool" where
  "outcome Recursion_exceeded = Inl RecursionError"
| "outcome Time_exceeded = Inl TimeoutError"
| "outcome Steps_exceeded = Inl TimeoutError"
| "outcome Revisited = Inr False"
| "outcome No_clauses = Inr True"
| "outcome Empty_clause = Inr False"

definition dp_solver :: "nat \<Rightarrow> (nat \<Rightarrow> bool) \<Rightarrow> formula \<Rightarrow> error + bool" where
  "dp_solver room expired formula = outcome (resolve room expired formula {} 0)"

subsection \<open>What the resolution loops compute\<close>

text \<open>
  The specification's words for one resolvent: the literals of \<open>p\<close> and of \<open>q\<close> in a
  row, without \<open>x\<close> and \<open>- x\<close>, each literal kept where it is seen first; it is a
  tautology when it contains a literal together with its negation.
\<close>

definition first_seen :: "int list \<Rightarrow> int list" where
  "first_seen ls = rev (remdups (rev ls))"

definition spec_resolvent :: "int \<Rightarrow> clause \<Rightarrow> clause \<Rightarrow> clause" where
  "spec_resolvent x p q = first_seen (filter (\<lambda>l. l \<noteq> x \<and> l \<noteq> - x) (p @ q))"

definition tautological :: "clause \<Rightarrow> bool" where
  "tautological c = (\<exists>l \<in> set c. - l \<in> set c)"

definition retained_resolvents :: "int \<Rightarrow> clause list \<Rightarrow> clause list \<Rightarrow> formula" where
  "retained_resolvents x pos neg =
     concat (map (\<lambda>p. map (spec_resolvent x p)
       (filter (\<lambda>q. \<not> tautological (spec_resolvent x p q)) neg)) pos)"

lemma remdups_drop_earlier:
  "l \<in> set bs \<Longrightarrow> remdups (as @ l # bs) = remdups (as @ bs)"
  by (induction as) auto

lemma fromkeys_loop_first_seen:
  "distinct keys \<Longrightarrow> fromkeys_loop rc keys = rev (remdups (rev rc @ rev keys))"
proof (induction rc arbitrary: keys)
  case Nil
  then show ?case by (simp add: distinct_remdups_id)
next
  case (Cons l rc)
  show ?case
  proof (cases "l \<in> set keys")
    case True
    then have "remdups (rev rc @ l # rev keys) = remdups (rev rc @ rev keys)"
      by (intro remdups_drop_earlier) simp
    with True Cons show ?thesis by simp
  next
    case False
    with Cons.prems have "distinct (keys @ [l])" by simp
    from Cons.IH [OF this] False show ?thesis by simp
  qed
qed

lemma fromkeys_first_seen: "fromkeys rc = first_seen rc"
  using fromkeys_loop_first_seen [of "[]" rc] by (simp add: fromkeys_def first_seen_def)

lemma set_first_seen: "set (first_seen ls) = set ls"
  by (simp add: first_seen_def)

lemma resolvent_filter:
  "0 \<le> x \<Longrightarrow> resolvent x p q = filter (\<lambda>l. l \<noteq> x \<and> l \<noteq> - x) (p @ q)"
proof -
  assume "0 \<le> x"
  then have "(\<bar>l\<bar> \<noteq> x) = (l \<noteq> x \<and> l \<noteq> - x)" for l :: int by arith
  then show ?thesis by (simp add: resolvent_def)
qed

lemma fromkeys_resolvent:
  "0 \<le> x \<Longrightarrow> fromkeys (resolvent x p q) = spec_resolvent x p q"
  by (simp add: fromkeys_first_seen resolvent_filter spec_resolvent_def)

lemma has_complement_resolvent:
  "0 \<le> x \<Longrightarrow> has_complement (resolvent x p q) = tautological (spec_resolvent x p q)"
  by (simp add: has_complement_def list_ex_iff tautological_def spec_resolvent_def
      set_first_seen resolvent_filter)

lemma neg_loop_append:
  "0 \<le> x \<Longrightarrow> neg_loop x p neg new =
     new @ map (spec_resolvent x p) (filter (\<lambda>q. \<not> tautological (spec_resolvent x p q)) neg)"
  by (induction neg arbitrary: new) (simp_all add: has_complement_resolvent fromkeys_resolvent)

lemma pos_loop_append:
  "0 \<le> x \<Longrightarrow> pos_loop x pos neg new = new @ retained_resolvents x pos neg"
  by (induction pos arbitrary: new) (simp_all add: neg_loop_append retained_resolvents_def)

lemma eliminate_spec:
  "eliminate fm =
     filter (\<lambda>c. \<bar>hd (hd fm)\<bar> \<notin> set c \<and> - \<bar>hd (hd fm)\<bar> \<notin> set c) fm @
     retained_resolvents \<bar>hd (hd fm)\<bar>
       (filter (\<lambda>c. \<bar>hd (hd fm)\<bar> \<in> set c) fm) (filter (\<lambda>c. - \<bar>hd (hd fm)\<bar> \<in> set c) fm)"
  by (simp add: eliminate_def Let_def pos_loop_append)

text \<open>
  C6. A call of \<open>resolve\<close> that is within its budgets, on a formula whose signature is
  new, that has a clause and has no empty clause: the variable \<open>x\<close> is the magnitude
  of the first literal of the first clause; \<open>pos\<close> are the clauses with \<open>x\<close>,
  \<open>neg\<close> those with \<open>- x\<close>, \<open>rest\<close> those with neither; the two nested loops leave
  in \<open>new\<close> the resolvents of all pairs of \<open>pos\<close> and \<open>neg\<close> (in the order of
  \<open>pos\<close>, then of \<open>neg\<close>) that are not tautologies, so the formula \<open>rest + new\<close> is
  \<open>rest\<close> followed by them. \<open>resolve_rel\<close> is the relation between a call of
  \<open>resolve\<close> and the call it makes, as the definition of \<open>resolve\<close> gives it: the only
  call such a step makes is the one on \<open>rest + new\<close>, with the signature added to the
  visited set and the counter one higher, and a call outside these conditions makes
  none. The value of the step is the value of that call.
\<close>

theorem resolve_step:
  "eliminate fm =
     (let x = \<bar>hd (hd fm)\<bar>;
          pos = filter (\<lambda>c. x \<in> set c) fm;
          neg = filter (\<lambda>c. - x \<in> set c) fm;
          rest = filter (\<lambda>c. x \<notin> set c \<and> - x \<notin> set c) fm
      in rest @ retained_resolvents x pos neg) \<and>
   (resolve_rel (room', expired', fm', seen', steps') (room, expired, fm, seen, steps) \<longleftrightarrow>
      steps < room \<and> \<not> expired steps \<and> steps < MAX_DP_STEPS \<and> signature fm \<notin> seen \<and>
      fm \<noteq> [] \<and> \<not> list_ex (\<lambda>c. length c = 0) fm \<and>
      room' = room \<and> expired' = expired \<and> fm' = eliminate fm \<and>
      seen' = insert (signature fm) seen \<and> steps' = Suc steps) \<and>
   (steps < room \<and> \<not> expired steps \<and> steps < MAX_DP_STEPS \<and> signature fm \<notin> seen \<and>
    fm \<noteq> [] \<and> \<not> list_ex (\<lambda>c. length c = 0) fm \<longrightarrow>
      resolve room expired fm seen steps =
        (let x = \<bar>hd (hd fm)\<bar>;
             pos = filter (\<lambda>c. x \<in> set c) fm;
             neg = filter (\<lambda>c. - x \<in> set c) fm;
             rest = filter (\<lambda>c. x \<notin> set c \<and> - x \<notin> set c) fm
         in resolve room expired (rest @ retained_resolvents x pos neg)
              (insert (signature fm) seen) (Suc steps)))"
proof (intro conjI impI)
  show "eliminate fm =
     (let x = \<bar>hd (hd fm)\<bar>;
          pos = filter (\<lambda>c. x \<in> set c) fm;
          neg = filter (\<lambda>c. - x \<in> set c) fm;
          rest = filter (\<lambda>c. x \<notin> set c \<and> - x \<notin> set c) fm
      in rest @ retained_resolvents x pos neg)"
    by (simp add: eliminate_def Let_def pos_loop_append)
  show "resolve_rel (room', expired', fm', seen', steps') (room, expired, fm, seen, steps) \<longleftrightarrow>
      steps < room \<and> \<not> expired steps \<and> steps < MAX_DP_STEPS \<and> signature fm \<notin> seen \<and>
      fm \<noteq> [] \<and> \<not> list_ex (\<lambda>c. length c = 0) fm \<and>
      room' = room \<and> expired' = expired \<and> fm' = eliminate fm \<and>
      seen' = insert (signature fm) seen \<and> steps' = Suc steps"
    by (auto simp: resolve_rel.simps)
next
  assume "steps < room \<and> \<not> expired steps \<and> steps < MAX_DP_STEPS \<and> signature fm \<notin> seen \<and>
    fm \<noteq> [] \<and> \<not> list_ex (\<lambda>c. length c = 0) fm"
  then show "resolve room expired fm seen steps =
        (let x = \<bar>hd (hd fm)\<bar>;
             pos = filter (\<lambda>c. x \<in> set c) fm;
             neg = filter (\<lambda>c. - x \<in> set c) fm;
             rest = filter (\<lambda>c. x \<notin> set c \<and> - x \<notin> set c) fm
         in resolve room expired (rest @ retained_resolvents x pos neg)
              (insert (signature fm) seen) (Suc steps))"
    by (subst resolve.simps) (simp add: eliminate_def Let_def pos_loop_append)
qed

theorem resolve_step_witness:
  "eliminate [[1, 2], [- 1, - 2], [1, - 2], [- 1, 2], [3, 3, 2]] = [[3, 3, 2], [2], [- 2]] \<and>
   resolve_rel
     (1000, \<lambda>k. False, [[3, 3, 2], [2], [- 2]],
      {signature [[1, 2], [- 1, - 2], [1, - 2], [- 1, 2], [3, 3, 2]]}, Suc 0)
     (1000, \<lambda>k. False, [[1, 2], [- 1, - 2], [1, - 2], [- 1, 2], [3, 3, 2]], {}, 0) \<and>
   \<not> resolve_rel
     (1000, \<lambda>k. False, [[3, 3, 2], [- 2], [2]],
      {signature [[1, 2], [- 1, - 2], [1, - 2], [- 1, 2], [3, 3, 2]]}, Suc 0)
     (1000, \<lambda>k. False, [[1, 2], [- 1, - 2], [1, - 2], [- 1, 2], [3, 3, 2]], {}, 0) \<and>
   resolve 1000 (\<lambda>k. False) [[1, 2], [- 1, - 2], [1, - 2], [- 1, 2], [3, 3, 2]] {} 0 =
     resolve 1000 (\<lambda>k. False) [[3, 3, 2], [2], [- 2]]
       {signature [[1, 2], [- 1, - 2], [1, - 2], [- 1, 2], [3, 3, 2]]} (Suc 0) \<and>
   retained_resolvents 1 [[1, 2], [1, - 2]] [[- 1, - 2], [- 1, 2]] = [[2], [- 2]] \<and>
   spec_resolvent 1 [1, 2] [- 1, - 2] = [2, - 2] \<and>
   spec_resolvent 1 [1, 2, 3] [- 1, 3, 2, 4] = [2, 3, 4]"
proof -
  let ?F = "[[1, 2], [- 1, - 2], [1, - 2], [- 1, 2], [3, 3, 2 :: int]]"
  let ?G = "[[3, 3, 2], [2], [- 2 :: int]]"
  let ?e = "\<lambda>k :: nat. False"
  note s = resolve_step [of ?F _ _ _ _ _ 1000 ?e "{}" 0]
  have r: "retained_resolvents 1 [[1, 2], [1, - 2]] [[- 1, - 2], [- 1, 2]] = [[2], [- 2]]"
    by code_simp
  have "eliminate ?F =
     (let x = \<bar>hd (hd ?F)\<bar>;
          pos = filter (\<lambda>c. x \<in> set c) ?F;
          neg = filter (\<lambda>c. - x \<in> set c) ?F;
          rest = filter (\<lambda>c. x \<notin> set c \<and> - x \<notin> set c) ?F
      in rest @ retained_resolvents x pos neg)"
    using s by blast
  then have e: "eliminate ?F = ?G" by (simp add: r)
  have c: "0 < (1000 :: nat) \<and> \<not> ?e 0 \<and> 0 < MAX_DP_STEPS \<and> signature ?F \<notin> {} \<and>
      ?F \<noteq> [] \<and> \<not> list_ex (\<lambda>c. length c = 0) ?F"
    by (simp add: MAX_DP_STEPS_def)
  note i = s [THEN conjunct2, THEN conjunct1]
  have rel: "resolve_rel (1000, ?e, ?G, {signature ?F}, Suc 0) (1000, ?e, ?F, {}, 0)"
    unfolding i [of 1000 ?e ?G "{signature ?F}" "Suc 0"] using c e by simp
  have "[[3, 3, 2], [- 2], [2 :: int]] \<noteq> eliminate ?F" by (simp add: e)
  then have nrel: "\<not> resolve_rel
      (1000, ?e, [[3, 3, 2], [- 2], [2]], {signature ?F}, Suc 0) (1000, ?e, ?F, {}, 0)"
    unfolding i [of 1000 ?e "[[3, 3, 2], [- 2], [2]]" "{signature ?F}" "Suc 0"] by blast
  have "resolve 1000 ?e ?F {} 0 =
     (let x = \<bar>hd (hd ?F)\<bar>;
          pos = filter (\<lambda>c. x \<in> set c) ?F;
          neg = filter (\<lambda>c. - x \<in> set c) ?F;
          rest = filter (\<lambda>c. x \<notin> set c \<and> - x \<notin> set c) ?F
      in resolve 1000 ?e (rest @ retained_resolvents x pos neg)
           (insert (signature ?F) {}) (Suc 0))"
    using s c by blast
  then have v: "resolve 1000 ?e ?F {} 0 = resolve 1000 ?e ?G {signature ?F} (Suc 0)"
    by (simp add: r)
  have p: "spec_resolvent 1 [1, 2] [- 1, - 2] = [2, - 2]"
    by (simp add: spec_resolvent_def first_seen_def)
  have q: "spec_resolvent 1 [1, 2, 3] [- 1, 3, 2, 4] = [2, 3, 4]"
    by (simp add: spec_resolvent_def first_seen_def)
  from e rel nrel v r p q show ?thesis by blast
qed

subsection \<open>The visited set never stops a run\<close>

definition sig_vars :: "int set set \<Rightarrow> int set" where
  "sig_vars s = abs ` \<Union> s"

text \<open>
  The invariant of the recursion: the signature of every formula visited so far has a
  variable the current formula has lost.
\<close>

definition left_behind :: "int set set set \<Rightarrow> formula \<Rightarrow> bool" where
  "left_behind seen fm = (\<forall>s \<in> seen. \<not> sig_vars s \<subseteq> vars fm)"

lemma sig_vars_signature: "sig_vars (signature fm) = vars fm"
  by (simp add: sig_vars_def signature_def vars_def)

lemma vars_retained_resolvents:
  assumes "v \<in> vars (retained_resolvents x pos neg)"
  shows "v \<noteq> \<bar>x\<bar> \<and> v \<in> vars (pos @ neg)"
proof -
  from assms obtain p q l where p: "p \<in> set pos" and q: "q \<in> set neg"
    and l: "l \<in> set (spec_resolvent x p q)" and v: "v = \<bar>l\<bar>"
    by (auto simp: vars_def retained_resolvents_def)
  from l have "l \<noteq> x" "l \<noteq> - x" "l \<in> set p \<union> set q"
    by (auto simp: spec_resolvent_def set_first_seen)
  with p q v show ?thesis by (auto simp: vars_def)
qed

lemma first_variable:
  assumes "fm \<noteq> []" and "\<not> list_ex (\<lambda>c. length c = 0) fm"
  shows "\<bar>hd (hd fm)\<bar> \<in> vars fm"
proof -
  from assms obtain c cs where f: "fm = c # cs" by (cases fm) auto
  with assms obtain l ls where c: "c = l # ls" by (cases c) auto
  show ?thesis by (simp add: f c vars_def)
qed

lemma vars_eliminate_subset: "vars (eliminate fm) \<subseteq> vars fm - {\<bar>hd (hd fm)\<bar>}"
proof
  fix v
  let ?x = "\<bar>hd (hd fm)\<bar>"
  assume "v \<in> vars (eliminate fm)"
  then consider
    (rest) "v \<in> vars (filter (\<lambda>c. ?x \<notin> set c \<and> - ?x \<notin> set c) fm)"
    | (new) "v \<in> vars (retained_resolvents ?x
        (filter (\<lambda>c. ?x \<in> set c) fm) (filter (\<lambda>c. - ?x \<in> set c) fm))"
    by (subst (asm) eliminate_spec) (auto simp: vars_def)
  then show "v \<in> vars fm - {?x}"
  proof cases
    case rest
    then obtain c l where c: "c \<in> set fm" "?x \<notin> set c" "- ?x \<notin> set c"
      and l: "l \<in> set c" "v = \<bar>l\<bar>"
      by (auto simp: vars_def)
    from c l have "l \<noteq> ?x" "l \<noteq> - ?x" by auto
    then have "\<bar>l\<bar> \<noteq> ?x" by arith
    with c l show ?thesis by (auto simp: vars_def)
  next
    case new
    from vars_retained_resolvents [OF this] show ?thesis by (auto simp: vars_def)
  qed
qed

lemma vars_eliminate_less:
  assumes "fm \<noteq> []" and "\<not> list_ex (\<lambda>c. length c = 0) fm"
  shows "vars (eliminate fm) \<subset> vars fm"
  using first_variable [OF assms] vars_eliminate_subset [of fm] by blast

lemma left_behind_fresh: "left_behind seen fm \<Longrightarrow> signature fm \<notin> seen"
  by (auto simp: left_behind_def sig_vars_signature)

lemma left_behind_step:
  assumes "left_behind seen fm" and "fm \<noteq> []" and "\<not> list_ex (\<lambda>c. length c = 0) fm"
  shows "left_behind (insert (signature fm) seen) (eliminate fm)"
  using assms(1) vars_eliminate_less [OF assms(2,3)]
  unfolding left_behind_def by (auto simp: sig_vars_signature)

lemma resolve_never_revisits:
  "left_behind seen fm \<Longrightarrow> resolve room expired fm seen steps \<noteq> Revisited"
proof (induction room expired fm seen steps rule: resolve.induct)
  case (1 room expired fm seen steps)
  note fresh = left_behind_fresh [OF "1.prems"]
  show ?case
  proof (cases "room \<le> steps \<or> expired steps \<or> Suc steps > MAX_DP_STEPS \<or> fm = [] \<or>
      list_ex (\<lambda>c. length c = 0) fm")
    case True
    with fresh show ?thesis by (subst resolve.simps) auto
  next
    case False
    then have "left_behind (insert (signature fm) seen) (eliminate fm)"
      using "1.prems" by (intro left_behind_step) simp_all
    with False fresh have "resolve room expired (eliminate fm) (insert (signature fm) seen) (Suc steps) \<noteq> Revisited"
      by (intro "1.IH") simp_all
    with False fresh show ?thesis by (subst resolve.simps) simp
  qed
qed

text \<open>
  C7. A run of \<open>dp_solver\<close> starts \<open>resolve\<close> with no visited signature, and such a run
  never ends at the cycle guard, whatever the clock does: every step that continues
  removes the variable it eliminates from the formula, so the formula of the next call
  has strictly fewer variables and a signature different from every earlier one.
\<close>

theorem cycle_guard_unreachable:
  "resolve room expired formula {} 0 \<noteq> Revisited \<and>
   (fm \<noteq> [] \<and> \<not> list_ex (\<lambda>c. length c = 0) fm \<longrightarrow>
      \<bar>hd (hd fm)\<bar> \<notin> vars (eliminate fm) \<and> vars (eliminate fm) \<subset> vars fm \<and>
      signature (eliminate fm) \<noteq> signature fm) \<and>
   (left_behind seen fm \<longrightarrow> resolve room expired fm seen steps \<noteq> Revisited) \<and>
   (left_behind seen fm \<and> fm \<noteq> [] \<and> \<not> list_ex (\<lambda>c. length c = 0) fm \<longrightarrow>
      left_behind (insert (signature fm) seen) (eliminate fm))"
proof (intro conjI impI)
  show "resolve room expired formula {} 0 \<noteq> Revisited"
    by (rule resolve_never_revisits) (simp add: left_behind_def)
next
  assume a: "fm \<noteq> [] \<and> \<not> list_ex (\<lambda>c. length c = 0) fm"
  show "\<bar>hd (hd fm)\<bar> \<notin> vars (eliminate fm)"
    using vars_eliminate_subset [of fm] by blast
  from a show less: "vars (eliminate fm) \<subset> vars fm"
    by (simp add: vars_eliminate_less)
  show "signature (eliminate fm) \<noteq> signature fm"
  proof
    assume "signature (eliminate fm) = signature fm"
    then have "sig_vars (signature (eliminate fm)) = sig_vars (signature fm)" by simp
    with less show False by (simp add: sig_vars_signature)
  qed
next
  assume "left_behind seen fm"
  then show "resolve room expired fm seen steps \<noteq> Revisited" by (rule resolve_never_revisits)
next
  assume "left_behind seen fm \<and> fm \<noteq> [] \<and> \<not> list_ex (\<lambda>c. length c = 0) fm"
  then show "left_behind (insert (signature fm) seen) (eliminate fm)"
    by (simp add: left_behind_step)
qed

theorem cycle_guard_unreachable_witness:
  "resolve 1000 (\<lambda>k. False) [[1, 2], [- 1, - 2], [1, - 2], [- 1, 2]] {} 0 = Empty_clause \<and>
   eliminate [[1, 2], [- 1, - 2], [1, - 2], [- 1, 2]] = [[2], [- 2]] \<and>
   1 \<notin> vars (eliminate [[1, 2], [- 1, - 2], [1, - 2], [- 1, 2]]) \<and>
   vars (eliminate [[1, 2], [- 1, - 2], [1, - 2], [- 1, 2]]) \<subset> vars [[1, 2], [- 1, - 2], [1, - 2], [- 1, 2]] \<and>
   signature [[2], [- 2]] \<noteq> signature [[1, 2], [- 1, - 2], [1, - 2], [- 1, 2]] \<and>
   left_behind {signature [[1, 2], [- 1, - 2], [1, - 2], [- 1, 2]]} [[2], [- 2]]"
proof -
  let ?F = "[[1, 2], [- 1, - 2], [1, - 2], [- 1, 2 :: int]]"
  let ?e = "\<lambda>k :: nat. False"
  note g = cycle_guard_unreachable [of 1000 ?e ?F ?F "{}" 0]
  have e: "eliminate ?F = [[2], [- 2]]"
    by (simp add: eliminate_def has_complement_def resolvent_def fromkeys_def)
  have ne: "?F \<noteq> [] \<and> \<not> list_ex (\<lambda>c. length c = 0) ?F" by simp
  have lb: "left_behind {} ?F" by (simp add: left_behind_def)
  from g ne have v: "\<bar>hd (hd ?F)\<bar> \<notin> vars (eliminate ?F) \<and> vars (eliminate ?F) \<subset> vars ?F \<and>
      signature (eliminate ?F) \<noteq> signature ?F"
    by blast
  from g ne lb have l: "left_behind (insert (signature ?F) {}) (eliminate ?F)" by blast
  have "resolve 1000 ?e ?F {} 0 = Revisited \<or> resolve 1000 ?e ?F {} 0 = Empty_clause"
    by (simp add: resolve.simps MAX_DP_STEPS_def eliminate_def has_complement_def
        resolvent_def fromkeys_def)
  moreover from g have "resolve 1000 ?e ?F {} 0 \<noteq> Revisited" by blast
  ultimately have r: "resolve 1000 ?e ?F {} 0 = Empty_clause" by blast
  from r e v l show ?thesis by simp
qed

section \<open>The engines on the formulas where they part\<close>

lemmas dpll_eval =
  dpll_solver.simps prepare_def pure_eliminate_def pure_pass_def pure_vars_def pure_lit_def
  unit_propagate.simps units_of_def simplify_all_def simplify_Cons simplify_Nil

lemmas dp_eval =
  dp_solver_def resolve.simps MAX_DP_STEPS_def eliminate_def has_complement_def
  resolvent_def fromkeys_def signature_def

text \<open>
  C2. The empty formula. \<open>dp_solver\<close> and \<open>dpll_solver\<close> return True (the first unless
  the interpreter has no room for a call or its clock has run out at the very first
  call). \<open>brute_force_solver\<close> does not
  return: \<open>max\<close> has no literal to look at and raises ValueError.
\<close>

theorem empty_formula_engines:
  "brute_force_solver [] = Inl ValueError \<and>
   dp_solver room expired [] =
     (if room = 0 then Inl RecursionError else if expired 0 then Inl TimeoutError else Inr True) \<and>
   dpll_solver [] = True"
proof (intro conjI)
  show "brute_force_solver [] = Inl ValueError"
    by (simp add: brute_force_solver_def max_abs_literal_def)
  show "dp_solver room expired [] =
     (if room = 0 then Inl RecursionError else if expired 0 then Inl TimeoutError else Inr True)"
    by (simp add: dp_eval)
  show "dpll_solver [] = True"
    by (simp add: dpll_eval)
qed

text \<open>
  A formula whose clauses are all empty has no literal either: \<open>brute_force_solver\<close>
  raises ValueError on it before the first mask, where the other two engines return
  False. The parser never builds such a formula (lemma \<open>parsed_formula\<close> below).
\<close>

lemma brute_force_no_literal:
  "brute_force_solver [[]] = Inl ValueError \<and>
   brute_force_solver [[], []] = Inl ValueError \<and>
   all_clauses 0 [[]] = Inr False \<and>
   dpll_solver [[]] = False \<and>
   dp_solver (Suc room) (\<lambda>k. False) [[]] = Inr False"
proof (intro conjI)
  show "brute_force_solver [[]] = Inl ValueError"
    by (simp add: brute_force_solver_def max_abs_literal_def)
  show "brute_force_solver [[], []] = Inl ValueError"
    by (simp add: brute_force_solver_def max_abs_literal_def)
  show "all_clauses 0 [[]] = Inr False" by simp
  show "dpll_solver [[]] = False" by (simp add: dpll_eval)
  show "dp_solver (Suc room) (\<lambda>k. False) [[]] = Inr False" by (simp add: dp_eval)
qed

text \<open>
  C1. The formula \<open>[[1, - 1]]\<close> has one variable and one clause, which every assignment
  satisfies. \<open>brute_force_solver\<close> and \<open>dpll_solver\<close> return True. \<open>dp_solver\<close> puts the
  clause into \<open>pos\<close> and into \<open>neg\<close>, resolves it with itself after taking both
  \<open>1\<close> and \<open>- 1\<close> out, keeps the empty resolvent and returns False. The same happens
  behind a satisfiable formula of three variables.
\<close>

theorem engines_disagree:
  "brute_force_solver [[1, - 1]] = Inr True \<and>
   dpll_solver [[1, - 1]] = True \<and>
   eliminate [[1, - 1]] = [[]] \<and>
   dp_solver (4 + room) (\<lambda>k. False) [[1, - 1]] = Inr False \<and>
   brute_force_solver [[1, - 1, 2], [- 2, 3], [- 2, - 3]] = Inr True \<and>
   dpll_solver [[1, - 1, 2], [- 2, 3], [- 2, - 3]] = True \<and>
   dp_solver (4 + room) (\<lambda>k. False) [[1, - 1, 2], [- 2, 3], [- 2, - 3]] = Inr False"
proof (intro conjI)
  show "brute_force_solver [[1, - 1]] = Inr True" by code_simp
  show "dpll_solver [[1, - 1]] = True" by (simp add: dpll_eval)
  show "eliminate [[1, - 1]] = [[]]" by (simp add: dp_eval)
  show "dp_solver (4 + room) (\<lambda>k. False) [[1, - 1]] = Inr False" by (simp add: dp_eval)
  show "brute_force_solver [[1, - 1, 2], [- 2, 3], [- 2, - 3]] = Inr True" by code_simp
  show "dpll_solver [[1, - 1, 2], [- 2, 3], [- 2, - 3]] = True" by (simp add: dpll_eval)
  show "dp_solver (4 + room) (\<lambda>k. False) [[1, - 1, 2], [- 2, 3], [- 2, - 3]] = Inr False"
    by (simp add: dp_eval)
qed

section \<open>cdcl_solver, the executor and main\<close>

text \<open>
  How a call of a solver ends: it returns a verdict, it raises an exception (ValueError
  and TimeoutError are subclasses of \<open>Exception\<close>), or \<open>sys.exit(code)\<close> raises
  SystemExit, which is not a subclass of \<open>Exception\<close>.
\<close>

datatype py_end = Returned bool | Raised error | SystemExit int

definition of_result :: "error + bool \<Rightarrow> py_end" where
  "of_result r = (case r of Inl e \<Rightarrow> Raised e | Inr b \<Rightarrow> Returned b)"

text \<open>
  \<^verbatim>\<open>
  def cdcl_solver(formula):
      try:
          from pysat.solvers import Solver
      except ImportError:
          print("ERROR: Instaleaza python-sat[pblib,aiger]", file=sys.stderr)
          sys.exit(1)
      with Solver(name='glucose3') as s:
          for clause in formula:
              s.add_clause(clause)
          return s.solve()
  \<close>
  The library is not part of the repository; it is the parameter \<open>pysat\<close>, which is
  \<open>None\<close> where the import fails and otherwise holds the verdict the library gives.
\<close>

definition cdcl_solver :: "(formula \<Rightarrow> bool) option \<Rightarrow> formula \<Rightarrow> py_end" where
  "cdcl_solver pysat formula =
     (case pysat of
        None \<Rightarrow> SystemExit 1
      | Some solve \<Rightarrow> Returned (solve formula))"

text \<open>
  \<^verbatim>\<open>
  def _worker(func, formula, q):
      try:
          start = time.time()
          res = func(formula)
          elapsed = time.time() - start
          mem_mb = psutil.Process(os.getpid()).memory_info().rss / (1024**2)
          q.put({'result': res, 'time': elapsed, 'memory': mem_mb})
      except TimeoutError:
          q.put({'timeout': True})
      except Exception:
          q.put({'timeout': True})
  \<close>
  The worker runs in a child process. The model gives what the child leaves on the
  queue and the exit code of the child; the measured time and memory are left out of
  the dictionary. A SystemExit passes both handlers and ends the child with its code.
\<close>

datatype info = Result bool | Timeout

definition worker :: "(formula \<Rightarrow> py_end) \<Rightarrow> formula \<Rightarrow> info list \<times> int" where
  "worker func formula =
     (case func formula of
        Returned res \<Rightarrow> ([Result res], 0)
      | Raised e \<Rightarrow> ([Timeout], 0)
      | SystemExit code \<Rightarrow> ([], code))"

text \<open>
  \<^verbatim>\<open>
  def run_with_timeout(func, formula):
      q = Queue()
      p = Process(target=_worker, args=(func, formula, q))
      p.start()
      p.join(TIMEOUT_PER_SOLVER)
      if p.is_alive():
          p.terminate()
          p.join()
          return {'timeout': True}
      info = q.get() if not q.empty() else {'timeout': True}
      return info
  \<close>
  \<open>alive\<close> says whether the child is still running after \<open>TIMEOUT_PER_SOLVER\<close>
  seconds. The exit code of the child is never read.
\<close>

definition run_with_timeout :: "bool \<Rightarrow> (formula \<Rightarrow> py_end) \<Rightarrow> formula \<Rightarrow> info" where
  "run_with_timeout alive func formula =
     (if alive then Timeout
      else (case fst (worker func formula) of
              [] \<Rightarrow> Timeout
            | i # q \<Rightarrow> i))"

text \<open>
  \<^verbatim>\<open>
  solvers = [
      ("Brute-Force", brute_force_solver),
      ("Davis-Putnam", dp_solver),
      ("DPLL",         dpll_solver),
      ("CDCL",         cdcl_solver),
  ]
  \<close>
  (The source writes the second name with a dash outside ASCII.)
\<close>

definition solvers ::
  "nat \<Rightarrow> (nat \<Rightarrow> bool) \<Rightarrow> (formula \<Rightarrow> bool) option \<Rightarrow>
   (string \<times> (formula \<Rightarrow> py_end)) list" where
  "solvers room expired pysat =
     [(''Brute-Force'', \<lambda>f. of_result (brute_force_solver f)),
      (''Davis-Putnam'', \<lambda>f. of_result (dp_solver room expired f)),
      (''DPLL'', \<lambda>f. Returned (dpll_solver f)),
      (''CDCL'', cdcl_solver pysat)]"

text \<open>
  What \<open>main\<close> prints on standard output, line by line. A file is given by its name and
  by what \<open>parse_cnf_file\<close> makes of it: \<open>None\<close> where the parser raises, otherwise the
  formula with the two numbers of the header.
  \<^verbatim>\<open>
  for name, solver in solvers:
      if name == "Brute-Force" and n > BF_THRESHOLD:
          print(f"-- {name:12} SARIT (n>{BF_THRESHOLD})")
          continue
      print(f"-- {name:12} ", end='', flush=True)
      info = run_with_timeout(solver, formula)
      if info.get('timeout'):
          print("TIMEOUT")
      else:
          sat = info['result']
          print(f"{'SAT' if sat else 'UNSAT'}, ...")
  \<close>
\<close>

datatype line =
    File_header string
  | Counts int int
  | Skipped string
  | Timed_out string
  | Verdict string bool
  | Finished

fun solver_loop ::
  "(string \<Rightarrow> bool) \<Rightarrow> formula \<Rightarrow> int \<Rightarrow> (string \<times> (formula \<Rightarrow> py_end)) list \<Rightarrow> line list" where
  "solver_loop alive formula n [] = []"
| "solver_loop alive formula n ((name, solver) # rest) =
     (if name = ''Brute-Force'' \<and> n > BF_THRESHOLD
      then Skipped name # solver_loop alive formula n rest
      else (case run_with_timeout (alive name) solver formula of
              Timeout \<Rightarrow> Timed_out name
            | Result sat \<Rightarrow> Verdict name sat) # solver_loop alive formula n rest)"

text \<open>
  \<^verbatim>\<open>
  for path in files:
      print(f"\n=== {os.path.basename(path)} ===")
      try:
          formula, n, m = parse_cnf_file(path)
          print(f"Variabile: {n}, Clauze: {m}")
      except Exception as e:
          print(f"Eroare la parsare: {e}", file=sys.stderr)
          continue
      for name, solver in solvers:
          ...
  print("\n=== Benchmark finalizat ===")
  \<close>
  \<open>alive path name\<close> says whether the child that runs solver \<open>name\<close> on file
  \<open>path\<close> outlives the timeout.
\<close>

fun file_loop ::
  "(string \<Rightarrow> string \<Rightarrow> bool) \<Rightarrow> (string \<times> (formula \<Rightarrow> py_end)) list \<Rightarrow>
   (string \<times> (formula \<times> int \<times> int) option) list \<Rightarrow> line list" where
  "file_loop alive svs [] = []"
| "file_loop alive svs ((path, parsed) # files) =
     File_header path #
     (case parsed of
        None \<Rightarrow> file_loop alive svs files
      | Some (formula, n, m) \<Rightarrow>
          Counts n m # solver_loop (alive path) formula n svs @ file_loop alive svs files)"

text \<open>
  \<open>main\<close> gives the lines printed on standard output and the exit status of the
  program. The files are \<open>None\<close> where the path is neither a directory nor a name
  ending in \<open>.cnf\<close>: the message then goes to standard error, nothing is printed on
  standard output, and \<open>sys.exit(1)\<close> ends the program; it is the only
  \<open>sys.exit\<close> of the parent process. The message of a file that does not parse goes to
  standard error as well.
\<close>

definition main ::
  "nat \<Rightarrow> (nat \<Rightarrow> bool) \<Rightarrow> (formula \<Rightarrow> bool) option \<Rightarrow> (string \<Rightarrow> string \<Rightarrow> bool) \<Rightarrow>
   (string \<times> (formula \<times> int \<times> int) option) list option \<Rightarrow> line list \<times> int" where
  "main room expired pysat alive found =
     (case found of
        None \<Rightarrow> ([], 1)
      | Some files \<Rightarrow> (file_loop alive (solvers room expired pysat) files @ [Finished], 0))"

text \<open>
  C3. Where the import of the library fails, \<open>sys.exit(1)\<close> ends the child process
  only. The parent finds the queue empty and takes that for a timeout of this one
  solver on this one file; it goes on with the next file and ends with status 0.
\<close>

theorem missing_dependency_not_fatal:
  "cdcl_solver None formula = SystemExit 1 \<and>
   worker (cdcl_solver None) formula = ([], 1) \<and>
   run_with_timeout alive1 (cdcl_solver None) formula = Timeout \<and>
   snd (main room expired None alive (Some files)) = 0 \<and>
   main (Suc (Suc room)) (\<lambda>k. False) None (\<lambda>path name. False)
     (Some [(''a.cnf'', Some ([[1]], 1, 1)), (''b.cnf'', Some ([[1], [- 1]], 1, 2))]) =
     ([File_header ''a.cnf'', Counts 1 1,
       Verdict ''Brute-Force'' True, Verdict ''Davis-Putnam'' True, Verdict ''DPLL'' True,
       Timed_out ''CDCL'',
       File_header ''b.cnf'', Counts 1 2,
       Verdict ''Brute-Force'' False, Verdict ''Davis-Putnam'' False, Verdict ''DPLL'' False,
       Timed_out ''CDCL'',
       Finished], 0)"
proof (intro conjI)
  show "cdcl_solver None formula = SystemExit 1" by (simp add: cdcl_solver_def)
  show "worker (cdcl_solver None) formula = ([], 1)" by (simp add: worker_def cdcl_solver_def)
  show "run_with_timeout alive1 (cdcl_solver None) formula = Timeout"
    by (simp add: run_with_timeout_def worker_def cdcl_solver_def)
  show "snd (main room expired None alive (Some files)) = 0" by (simp add: main_def)
  have bf: "brute_force_solver [[1]] = Inr True" "brute_force_solver [[1], [- 1]] = Inr False"
    by code_simp+
  have dp: "dp_solver (Suc (Suc room)) (\<lambda>k. False) [[1]] = Inr True"
    "dp_solver (Suc (Suc room)) (\<lambda>k. False) [[1], [- 1]] = Inr False"
    by (simp_all add: dp_eval)
  have dpll: "dpll_solver [[1]] = True" "dpll_solver [[1], [- 1]] = False"
    by (simp_all add: dpll_eval)
  show "main (Suc (Suc room)) (\<lambda>k. False) None (\<lambda>path name. False)
     (Some [(''a.cnf'', Some ([[1]], 1, 1)), (''b.cnf'', Some ([[1], [- 1]], 1, 2))]) =
     ([File_header ''a.cnf'', Counts 1 1,
       Verdict ''Brute-Force'' True, Verdict ''Davis-Putnam'' True, Verdict ''DPLL'' True,
       Timed_out ''CDCL'',
       File_header ''b.cnf'', Counts 1 2,
       Verdict ''Brute-Force'' False, Verdict ''Davis-Putnam'' False, Verdict ''DPLL'' False,
       Timed_out ''CDCL'',
       Finished], 0)"
    by (simp add: main_def solvers_def run_with_timeout_def worker_def cdcl_solver_def
        of_result_def BF_THRESHOLD_def bf dp dpll)
qed

section \<open>What the engines decide\<close>

subsection \<open>brute_force_solver on a formula with a literal\<close>

text \<open>
  The specification's reading of a mask: variable \<open>i\<close> is true iff bit \<open>i - 1\<close> of
  the mask is set; a literal is true when its polarity agrees with its variable; a mask
  satisfies a formula when every clause has a true literal.
\<close>

definition lit_true :: "nat \<Rightarrow> literal \<Rightarrow> bool" where
  "lit_true m l = ((0 < l) = bit m (nat (\<bar>l\<bar> - 1)))"

definition mask_satisfies :: "nat \<Rightarrow> formula \<Rightarrow> bool" where
  "mask_satisfies m F = list_all (list_ex (lit_true m)) F"

lemma literal_holds_nonzero: "l \<noteq> 0 \<Longrightarrow> literal_holds m l = Inr (lit_true m l)"
  by (simp add: literal_holds_def lit_true_def bit_iff_and_drop_bit_eq_1 and_one_eq)

lemma any_literal_nonzero: "0 \<notin> set c \<Longrightarrow> any_literal m c = Inr (list_ex (lit_true m) c)"
  by (induction c) (auto simp: literal_holds_nonzero split: bool.splits)

lemma all_clauses_nonzero:
  "0 \<notin> set (concat F) \<Longrightarrow> all_clauses m F = Inr (mask_satisfies m F)"
  by (induction F) (auto simp: any_literal_nonzero mask_satisfies_def split: bool.splits)

lemma mask_loop_nonzero:
  assumes "0 \<notin> set (concat F)"
  shows "mask_loop F m stop = Inr (\<exists>k. m \<le> k \<and> k < stop \<and> mask_satisfies k F)"
  using assms
proof (induction F m stop rule: mask_loop.induct)
  case (1 formula msk stop)
  show ?case
  proof (cases "msk < stop")
    case False
    then show ?thesis by (subst mask_loop.simps) auto
  next
    case True
    note lt = this
    show ?thesis
    proof (cases "mask_satisfies msk formula")
      case True
      with lt "1.prems" show ?thesis
        by (subst mask_loop.simps) (auto simp: all_clauses_nonzero)
    next
      case False
      have "(\<exists>k\<ge>Suc msk. k < stop \<and> mask_satisfies k formula)
          = (\<exists>k\<ge>msk. k < stop \<and> mask_satisfies k formula)"
        using False by (metis Suc_leD Suc_leI le_neq_implies_less)
      moreover have "mask_loop formula (Suc msk) stop
          = Inr (\<exists>k\<ge>Suc msk. k < stop \<and> mask_satisfies k formula)"
        using lt False "1.prems" by (intro "1.IH") (simp_all add: all_clauses_nonzero)
      ultimately show ?thesis
        using lt False "1.prems" by (subst mask_loop.simps) (simp add: all_clauses_nonzero)
    qed
  qed
qed

lemma max_abs_literal_Max:
  "concat F \<noteq> [] \<Longrightarrow> max_abs_literal F = Inr (Max (abs ` set (concat F)))"
proof -
  assume "concat F \<noteq> []"
  then obtain a as where e: "map abs (concat F) = a # as" by (cases "concat F") auto
  have "Max (abs ` set (concat F)) = Max (set (map abs (concat F)))" by simp
  also have "\<dots> = fold max as a" unfolding e by (rule Max.set_eq_fold)
  finally show ?thesis by (simp add: max_abs_literal_def e)
qed

text \<open>
  Where the formula has a literal and no literal is 0, \<open>brute_force_solver\<close> returns,
  and it returns True exactly when some mask below \<open>2 ^ n\<close> satisfies the formula,
  \<open>n\<close> being the largest magnitude of a literal.
\<close>

lemma brute_force_solver_masks:
  assumes "concat F \<noteq> []" and "0 \<notin> set (concat F)"
  shows "brute_force_solver F =
     Inr (\<exists>m < 2 ^ nat (Max (abs ` set (concat F))). mask_satisfies m F)"
  using assms
  by (simp add: brute_force_solver_def max_abs_literal_Max mask_loop_nonzero push_bit_eq_mult)

subsection \<open>The formulas the parser hands to the engines\<close>

text \<open>
  \<^verbatim>\<open>
  lits = []
  for tok in line.split():
      v = int(tok)
      if v == 0:
          break
      lits.append(v)
  if lits:
      formula.append(lits)
  \<close>
  The part of \<open>parse_cnf_file\<close> that builds the formula. A clause line is given by the
  integers of its tokens; the lines are those that reach this loop (not a comment, not
  the header, not behind a \<open>%\<close>).
\<close>

fun read_literals :: "int list \<Rightarrow> clause \<Rightarrow> clause" where
  "read_literals [] lits = lits"
| "read_literals (v # toks) lits = (if v = 0 then lits else read_literals toks (lits @ [v]))"

fun read_clauses :: "int list list \<Rightarrow> formula \<Rightarrow> formula" where
  "read_clauses [] formula = formula"
| "read_clauses (toks # lines) formula =
     (if read_literals toks [] \<noteq> [] then read_clauses lines (formula @ [read_literals toks []])
      else read_clauses lines formula)"

lemma read_literals_nonzero: "0 \<notin> set lits \<Longrightarrow> 0 \<notin> set (read_literals toks lits)"
  by (induction toks arbitrary: lits) auto

lemma read_clauses_wellformed:
  assumes "[] \<notin> set formula" and "0 \<notin> set (concat formula)"
  shows "[] \<notin> set (read_clauses lines formula) \<and> 0 \<notin> set (concat (read_clauses lines formula))"
  using assms
proof (induction lines arbitrary: formula)
  case Nil
  then show ?case by simp
next
  case (Cons toks lines)
  have z: "0 \<notin> set (read_literals toks [])" by (rule read_literals_nonzero) simp
  show ?case
  proof (cases "read_literals toks [] = []")
    case True
    with Cons show ?thesis by simp
  next
    case False
    have "[] \<notin> set (formula @ [read_literals toks []])"
      using Cons.prems(1) False by auto
    moreover have "0 \<notin> set (concat (formula @ [read_literals toks []]))"
      using Cons.prems(2) z by auto
    ultimately have "[] \<notin> set (read_clauses lines (formula @ [read_literals toks []])) \<and>
        0 \<notin> set (concat (read_clauses lines (formula @ [read_literals toks []])))"
      by (rule Cons.IH)
    with False show ?thesis by simp
  qed
qed

text \<open>
  Whatever the clause lines are, the formula the parser builds has no empty clause and
  no literal 0.
\<close>

lemma parsed_formula:
  "\<not> list_ex (\<lambda>c. c = []) (read_clauses lines []) \<and>
   \<not> list_ex (\<lambda>c. 0 \<in> set c) (read_clauses lines [])"
  using read_clauses_wellformed [of "[]" lines] by (auto simp: list_ex_iff)



subsection \<open>Assignments\<close>

definition lit_val :: "(int \<Rightarrow> bool) \<Rightarrow> literal \<Rightarrow> bool" where
  "lit_val A l = (if 0 < l then A l else \<not> A (- l))"

definition models :: "(int \<Rightarrow> bool) \<Rightarrow> formula \<Rightarrow> bool" where
  "models A F = (\<forall>c \<in> set F. \<exists>l \<in> set c. lit_val A l)"

definition satisfiable :: "formula \<Rightarrow> bool" where
  "satisfiable F = (\<exists>A. models A F)"

lemma lit_val_abs: "l \<noteq> 0 \<Longrightarrow> lit_val A l = ((0 < l) = A \<bar>l\<bar>)"
  by (auto simp: lit_val_def)

lemma mask_satisfies_models:
  assumes "0 \<notin> set (concat F)"
  shows "mask_satisfies m F = models (\<lambda>v. bit m (nat (v - 1))) F"
proof -
  have "lit_true m l = lit_val (\<lambda>v. bit m (nat (v - 1))) l" if "l \<noteq> 0" for l
    using that by (simp add: lit_val_abs lit_true_def)
  moreover have "l \<noteq> 0" if "c \<in> set F" "l \<in> set c" for c l
    using that assms by auto
  ultimately show ?thesis
    unfolding mask_satisfies_def models_def list_all_iff list_ex_iff by (metis (full_types))
qed

lemma models_mask:
  assumes A: "models A F" and nz: "0 \<notin> set (concat F)"
    and bound: "\<forall>l \<in> set (concat F). \<bar>l\<bar> \<le> int n"
  shows "\<exists>m < 2 ^ n. mask_satisfies m F"
proof -
  let ?bs = "map (\<lambda>k. A (int k + 1)) [0..<n]"
  let ?m = "horner_sum of_bool 2 ?bs :: nat"
  have "?m < 2 ^ length ?bs" by (rule horner_sum_bound)
  then have lt: "?m < 2 ^ n" by simp
  have b: "bit ?m (nat (\<bar>l\<bar> - 1)) = A \<bar>l\<bar>" if "l \<in> set (concat F)" for l
  proof -
    from that nz bound have "l \<noteq> 0" "\<bar>l\<bar> \<le> int n" by auto
    then have "nat (\<bar>l\<bar> - 1) < n" and "int (nat (\<bar>l\<bar> - 1)) + 1 = \<bar>l\<bar>" by auto
    then show ?thesis by (simp add: bit_horner_sum_bit_iff)
  qed
  have "mask_satisfies ?m F"
    unfolding mask_satisfies_def list_all_iff list_ex_iff
  proof
    fix c
    assume c: "c \<in> set F"
    with A obtain l where l: "l \<in> set c" "lit_val A l" by (auto simp: models_def)
    with c have m: "l \<in> set (concat F)" by auto
    with nz have "l \<noteq> 0" by auto
    with l b [OF m] have "lit_true ?m l" by (simp add: lit_true_def lit_val_abs)
    with l show "\<exists>l \<in> set c. lit_true ?m l" by blast
  qed
  with lt show ?thesis by blast
qed

lemma brute_force_solver_satisfiable:
  assumes "concat F \<noteq> []" and "0 \<notin> set (concat F)"
  shows "brute_force_solver F = Inr (satisfiable F)"
proof -
  let ?n = "nat (Max (abs ` set (concat F)))"
  have "(\<exists>m < 2 ^ ?n. mask_satisfies m F) = satisfiable F"
  proof
    assume "\<exists>m < 2 ^ ?n. mask_satisfies m F"
    then show "satisfiable F"
      using assms(2) by (auto simp: mask_satisfies_models satisfiable_def)
  next
    assume "satisfiable F"
    then obtain A where A: "models A F" by (auto simp: satisfiable_def)
    have "\<forall>l \<in> set (concat F). \<bar>l\<bar> \<le> int ?n"
    proof
      fix l
      assume "l \<in> set (concat F)"
      then have "\<bar>l\<bar> \<le> Max (abs ` set (concat F))" by (intro Max_ge) auto
      then show "\<bar>l\<bar> \<le> int ?n" by arith
    qed
    with A assms(2) show "\<exists>m < 2 ^ ?n. mask_satisfies m F" by (rule models_mask)
  qed
  with brute_force_solver_masks [OF assms] show ?thesis by simp
qed

subsection \<open>dpll_solver decides satisfiability\<close>

lemma models_agree:
  assumes "\<forall>v \<in> vars F. A v = B v" and "0 \<notin> set (concat F)"
  shows "models A F = models B F"
proof -
  have "lit_val A l = lit_val B l" if "c \<in> set F" "l \<in> set c" for c l
  proof -
    from that assms(2) have "l \<noteq> 0" by auto
    moreover from that have "\<bar>l\<bar> \<in> vars F" by (auto simp: vars_def)
    ultimately show ?thesis using assms(1) by (simp add: lit_val_abs)
  qed
  then show ?thesis by (simp add: models_def)
qed

lemma lit_val_negate: "l \<noteq> 0 \<Longrightarrow> lit_val A (- l) = (\<not> lit_val A l)"
  by (auto simp: lit_val_def)

lemma models_simplify:
  assumes "lit_val A l" and "l \<noteq> 0"
  shows "models A (simplify F l) = models A F"
proof (induction F)
  case Nil
  show ?case by (simp add: simplify_Nil)
next
  case (Cons c F)
  have f: "\<not> lit_val A (- l)" using assms by (simp add: lit_val_negate)
  have "(\<exists>k \<in> set (filter (\<lambda>k. k \<noteq> - l) c). lit_val A k) = (\<exists>k \<in> set c. lit_val A k)"
    using f by auto
  with Cons assms show ?case
    by (auto simp: simplify_Cons models_def)
qed

lemma literals_simplify: "set (concat (simplify F l)) \<subseteq> set (concat F)"
  using simplify_clause_origin [of _ F l] by fastforce

lemma satisfiable_simplify:
  assumes "satisfiable (simplify F l)" and "l \<noteq> 0" and "0 \<notin> set (concat F)"
  shows "satisfiable F"
proof -
  from assms(1) obtain A where A: "models A (simplify F l)" by (auto simp: satisfiable_def)
  let ?B = "A(\<bar>l\<bar> := (0 < l))"
  have nz: "0 \<notin> set (concat (simplify F l))" using literals_simplify [of F l] assms(3) by blast
  have "\<forall>v \<in> vars (simplify F l). A v = ?B v"
    using vars_simplify_free [of l F] by auto
  then have "models A (simplify F l) = models ?B (simplify F l)"
    using nz by (rule models_agree)
  with A have "models ?B (simplify F l)" by simp
  moreover have "lit_val ?B l" using assms(2) by (simp add: lit_val_abs)
  ultimately have "models ?B F" using assms(2) by (simp add: models_simplify)
  then show ?thesis by (auto simp: satisfiable_def)
qed

lemma satisfiable_branch:
  assumes "l \<noteq> 0" and "0 \<notin> set (concat F)"
  shows "satisfiable F = (satisfiable (simplify F l) \<or> satisfiable (simplify F (- l)))"
proof
  assume "satisfiable F"
  then obtain A where A: "models A F" by (auto simp: satisfiable_def)
  show "satisfiable (simplify F l) \<or> satisfiable (simplify F (- l))"
  proof (cases "lit_val A l")
    case True
    with A assms have "models A (simplify F l)" by (simp add: models_simplify)
    then show ?thesis by (auto simp: satisfiable_def)
  next
    case False
    then have "lit_val A (- l)" using assms by (simp add: lit_val_negate)
    with A assms have "models A (simplify F (- l))" by (simp add: models_simplify)
    then show ?thesis by (auto simp: satisfiable_def)
  qed
next
  assume "satisfiable (simplify F l) \<or> satisfiable (simplify F (- l))"
  then show "satisfiable F"
    using assms satisfiable_simplify [of F l] satisfiable_simplify [of F "- l"] by auto
qed

lemma empty_clause_unsatisfiable: "[] \<in> set F \<Longrightarrow> \<not> satisfiable F"
  by (force simp: satisfiable_def models_def)

lemma satisfiable_unit:
  assumes "[u] \<in> set F" and "0 \<notin> set (concat F)"
  shows "satisfiable (simplify F u) = satisfiable F"
proof
  from assms have nz: "u \<noteq> 0" by auto
  {
    assume "satisfiable F"
    then obtain A where A: "models A F" by (auto simp: satisfiable_def)
    with assms(1) have "lit_val A u" by (auto simp: models_def)
    with A nz have "models A (simplify F u)" by (simp add: models_simplify)
    then show "satisfiable (simplify F u)" by (auto simp: satisfiable_def)
  }
  assume "satisfiable (simplify F u)"
  then show "satisfiable F" using nz assms(2) by (rule satisfiable_simplify)
qed

text \<open>
  A round of the unit loop simplifies by every literal of the list taken at its start.
  When its turn comes, such a literal is still the literal of a unit clause, or its
  variable is gone (then nothing changes), or the formula has an empty clause (then it
  is unsatisfiable and stays so).
\<close>

definition unit_or_stale :: "formula \<Rightarrow> literal \<Rightarrow> bool" where
  "unit_or_stale F u = ([u] \<in> set F \<or> \<bar>u\<bar> \<notin> vars F \<or> [] \<in> set F)"

lemma simplify_keeps_empty: "[] \<in> set F \<Longrightarrow> [] \<in> set (simplify F l)"
  by (induction F) (auto simp: simplify_Cons)

lemma simplify_stale: "\<bar>u\<bar> \<notin> vars F \<Longrightarrow> simplify F u = F"
proof (rule simplify_unchanged, intro ballI)
  fix c
  assume a: "\<bar>u\<bar> \<notin> vars F" and c: "c \<in> set F"
  have "l \<in> set c \<Longrightarrow> \<bar>l\<bar> \<in> vars F" for l using c by (auto simp: vars_def)
  from this [of u] this [of "- u"] a show "u \<notin> set c \<and> - u \<notin> set c" by auto
qed

lemma unit_or_stale_simplify:
  assumes "unit_or_stale F w"
  shows "unit_or_stale (simplify F u) w"
proof -
  from assms consider (unit) "[w] \<in> set F" | (stale) "\<bar>w\<bar> \<notin> vars F" | (empty) "[] \<in> set F"
    by (auto simp: unit_or_stale_def)
  then show ?thesis
  proof cases
    case unit
    show ?thesis
    proof (cases "w = u \<or> w = - u")
      case True
      then consider "w = u" | "w = - u" "w \<noteq> u" by blast
      then show ?thesis
      proof cases
        case 1
        then show ?thesis using vars_simplify_free [of u F] by (simp add: unit_or_stale_def)
      next
        case 2
        then have "[] \<in> set (simplify F u)"
          using unit by (induction F) (auto simp: simplify_Cons)
        then show ?thesis by (simp add: unit_or_stale_def)
      qed
    next
      case False
      then have "[w] \<in> set (simplify F u)"
        using unit by (induction F) (auto simp: simplify_Cons)
      then show ?thesis by (simp add: unit_or_stale_def)
    qed
  next
    case stale
    then show ?thesis using vars_simplify_subset [of F u] by (auto simp: unit_or_stale_def)
  next
    case empty
    then show ?thesis by (simp add: unit_or_stale_def simplify_keeps_empty)
  qed
qed

lemma satisfiable_unit_or_stale:
  assumes "unit_or_stale F u" and "0 \<notin> set (concat F)"
  shows "satisfiable (simplify F u) = satisfiable F"
proof -
  from assms(1) consider (unit) "[u] \<in> set F" | (stale) "\<bar>u\<bar> \<notin> vars F" | (empty) "[] \<in> set F"
    by (auto simp: unit_or_stale_def)
  then show ?thesis
  proof cases
    case unit
    then show ?thesis using assms(2) by (rule satisfiable_unit)
  next
    case stale
    then show ?thesis by (simp add: simplify_stale)
  next
    case empty
    then show ?thesis
      using simplify_keeps_empty [of F u] by (simp add: empty_clause_unsatisfiable)
  qed
qed

lemma satisfiable_simplify_all:
  assumes "\<forall>u \<in> set us. unit_or_stale F u" and "0 \<notin> set (concat F)"
  shows "satisfiable (simplify_all us F) = satisfiable F"
  using assms
proof (induction us arbitrary: F)
  case Nil
  show ?case by (simp add: simplify_all_def)
next
  case (Cons u us)
  have "\<forall>w \<in> set us. unit_or_stale (simplify F u) w"
    using Cons.prems(1) by (simp add: unit_or_stale_simplify)
  moreover have "0 \<notin> set (concat (simplify F u))"
    using Cons.prems(2) literals_simplify [of F u] by blast
  ultimately have "satisfiable (simplify_all us (simplify F u)) = satisfiable (simplify F u)"
    by (rule Cons.IH)
  also have "\<dots> = satisfiable F"
    using Cons.prems by (intro satisfiable_unit_or_stale) simp_all
  finally show ?case by (simp add: simplify_all_def)
qed

lemma literals_simplify_all: "set (concat (simplify_all us F)) \<subseteq> set (concat F)"
proof (induction us arbitrary: F)
  case Nil
  show ?case by (simp add: simplify_all_def)
next
  case (Cons u us)
  have "set (concat (simplify_all us (simplify F u))) \<subseteq> set (concat (simplify F u))"
    by (rule Cons.IH)
  also have "\<dots> \<subseteq> set (concat F)" by (rule literals_simplify)
  finally show ?case by (simp add: simplify_all_def)
qed

lemma unit_propagate_sound:
  "0 \<notin> set (concat F) \<Longrightarrow>
     satisfiable (unit_propagate F) = satisfiable F \<and> 0 \<notin> set (concat (unit_propagate F))"
proof (induction F rule: unit_propagate.induct)
  case (1 formula)
  show ?case
  proof (cases "units_of formula = []")
    case True
    with 1 show ?thesis by (simp add: unit_propagate.simps [of formula])
  next
    case False
    let ?G = "simplify_all (units_of formula) formula"
    have nz: "0 \<notin> set (concat ?G)"
      using "1.prems" literals_simplify_all [of "units_of formula" formula] by blast
    have "\<forall>u \<in> set (units_of formula). unit_or_stale formula u"
      by (simp add: unit_or_stale_def units_of_in_formula)
    then have "satisfiable ?G = satisfiable formula"
      using "1.prems" by (rule satisfiable_simplify_all)
    moreover have "satisfiable (unit_propagate ?G) = satisfiable ?G \<and>
        0 \<notin> set (concat (unit_propagate ?G))"
      using False nz by (rule "1.IH")
    ultimately show ?thesis using False by (simp add: unit_propagate.simps [of formula])
  qed
qed

lemma pure_eliminate_sound:
  assumes "0 \<notin> set (concat F)"
  shows "satisfiable (pure_eliminate F) = satisfiable F"
proof
  assume "satisfiable F"
  then show "satisfiable (pure_eliminate F)"
    by (auto simp: satisfiable_def models_def pure_eliminate_filter)
next
  assume "satisfiable (pure_eliminate F)"
  then obtain A where A: "models A (pure_eliminate F)" by (auto simp: satisfiable_def)
  let ?B = "\<lambda>v. if pure_in F v then v \<in> set (concat F) else A v"
  have "models ?B F"
    unfolding models_def
  proof
    fix c
    assume c: "c \<in> set F"
    show "\<exists>l \<in> set c. lit_val ?B l"
    proof (cases "list_all (\<lambda>l. \<not> pure_in F \<bar>l\<bar>) c")
      case True
      with c have "c \<in> set (pure_eliminate F)" by (simp add: pure_eliminate_filter)
      with A obtain l where l: "l \<in> set c" "lit_val A l" by (auto simp: models_def)
      with c assms have nz: "l \<noteq> 0" by auto
      from True l have "\<not> pure_in F \<bar>l\<bar>" by (simp add: list_all_iff)
      with l nz have "lit_val ?B l" by (simp add: lit_val_abs)
      with l show ?thesis by blast
    next
      case False
      then obtain l where l: "l \<in> set c" and p: "pure_in F \<bar>l\<bar>" by (auto simp: list_all_iff)
      from l c assms have nz: "l \<noteq> 0" and m: "l \<in> set (concat F)" by auto
      have "lit_val ?B l"
      proof (cases "0 < l")
        case True
        with m p show ?thesis by (simp add: lit_val_def)
      next
        case False
        with nz have e: "- \<bar>l\<bar> = l" by simp
        with m have "- \<bar>l\<bar> \<in> set (concat F)" by simp
        with p have "\<bar>l\<bar> \<notin> set (concat F)" by (simp add: pure_in_def)
        with False p nz show ?thesis by (simp add: lit_val_abs)
      qed
      with l show ?thesis by blast
    qed
  qed
  then show "satisfiable F" by (auto simp: satisfiable_def)
qed

lemma prepare_sound:
  assumes "0 \<notin> set (concat F)"
  shows "satisfiable (prepare F) = satisfiable F" and "0 \<notin> set (concat (prepare F))"
proof -
  from unit_propagate_sound [OF assms]
  have u: "satisfiable (unit_propagate F) = satisfiable F" "0 \<notin> set (concat (unit_propagate F))"
    by simp_all
  then show "satisfiable (prepare F) = satisfiable F"
    by (simp add: prepare_def pure_eliminate_sound)
  have "set (concat (prepare F)) \<subseteq> set (concat (unit_propagate F))"
    by (auto simp: prepare_def pure_eliminate_filter)
  with u show "0 \<notin> set (concat (prepare F))" by blast
qed

text \<open>
  On every formula whose literals are not 0, \<open>dpll_solver\<close> returns True exactly when
  some assignment satisfies the formula.
\<close>

lemma dpll_solver_satisfiable:
  "0 \<notin> set (concat F) \<Longrightarrow> dpll_solver F = satisfiable F"
proof (induction F rule: dpll_solver.induct)
  case (1 formula)
  let ?G = "prepare formula"
  note s = prepare_sound [OF "1.prems"]
  show ?case
  proof (cases "?G = [] \<or> list_ex (\<lambda>c. length c = 0) ?G")
    case True
    then consider "?G = []" | "?G \<noteq> []" "[] \<in> set ?G" by (auto simp: list_ex_iff)
    then show ?thesis
    proof cases
      case 1
      then have "satisfiable ?G" by (simp add: satisfiable_def models_def)
      with 1 s show ?thesis by (simp add: dpll_solver.simps [of formula])
    next
      case 2
      then have "\<not> satisfiable ?G" by (simp add: empty_clause_unsatisfiable)
      moreover from 2 have "list_ex (\<lambda>c. length c = 0) ?G" by (auto simp: list_ex_iff)
      ultimately show ?thesis using 2 s by (simp add: dpll_solver.simps [of formula])
    qed
  next
    case False
    let ?l = "hd (hd ?G)"
    from False obtain c cs where g: "?G = c # cs" by (cases ?G) auto
    with False obtain l ls where c: "c = l # ls" by (cases c) auto
    have "?l \<in> set (concat ?G)" by (simp add: g c)
    with s(2) have nz: "?l \<noteq> 0" by metis
    have nz1: "0 \<notin> set (concat (simplify ?G ?l))"
      using s(2) literals_simplify [of ?G ?l] by blast
    have nz2: "0 \<notin> set (concat (simplify ?G (- ?l)))"
      using s(2) literals_simplify [of ?G "- ?l"] by blast
    have a: "dpll_solver (simplify ?G ?l) = satisfiable (simplify ?G ?l)"
      using False nz1 by (intro "1.IH"(1)) simp_all
    have b: "dpll_solver (simplify ?G (- ?l)) = satisfiable (simplify ?G (- ?l))"
      if "\<not> dpll_solver (simplify ?G ?l)"
      using False nz2 that by (intro "1.IH"(2)) simp_all
    have "dpll_solver formula =
        (if dpll_solver (simplify ?G ?l) then True else dpll_solver (simplify ?G (- ?l)))"
      using False by (simp add: dpll_solver.simps [of formula])
    also have "\<dots> = (satisfiable (simplify ?G ?l) \<or> satisfiable (simplify ?G (- ?l)))"
      using a b by auto
    also have "\<dots> = satisfiable ?G"
      using nz s(2) by (simp add: satisfiable_branch [of ?l ?G])
    finally show ?thesis using s(1) by simp
  qed
qed

subsection \<open>dp_solver on formulas without tautological clauses\<close>

definition taut_free :: "formula \<Rightarrow> bool" where
  "taut_free F = list_all (\<lambda>c. \<not> tautological c) F"

lemma set_spec_resolvent:
  "set (spec_resolvent x p q) = {l \<in> set p \<union> set q. l \<noteq> x \<and> l \<noteq> - x}"
  by (auto simp: spec_resolvent_def set_first_seen)

lemma set_retained_resolvents:
  "set (retained_resolvents x pos neg) =
     {spec_resolvent x p q | p q. p \<in> set pos \<and> q \<in> set neg \<and> \<not> tautological (spec_resolvent x p q)}"
  by (auto simp: retained_resolvents_def)

lemma set_eliminate:
  "set (eliminate F) =
     {c \<in> set F. \<bar>hd (hd F)\<bar> \<notin> set c \<and> - \<bar>hd (hd F)\<bar> \<notin> set c} \<union>
     {spec_resolvent \<bar>hd (hd F)\<bar> p q | p q.
        p \<in> set F \<and> \<bar>hd (hd F)\<bar> \<in> set p \<and> q \<in> set F \<and> - \<bar>hd (hd F)\<bar> \<in> set q \<and>
        \<not> tautological (spec_resolvent \<bar>hd (hd F)\<bar> p q)}"
  by (subst eliminate_spec) (auto simp: set_retained_resolvents)

lemma literals_eliminate: "set (concat (eliminate F)) \<subseteq> set (concat F)"
proof
  fix l
  assume "l \<in> set (concat (eliminate F))"
  then obtain c where c: "c \<in> set (eliminate F)" and l: "l \<in> set c" by auto
  from c consider "c \<in> set F"
    | p q where "p \<in> set F" "q \<in> set F" "c = spec_resolvent \<bar>hd (hd F)\<bar> p q"
    unfolding set_eliminate by blast
  then show "l \<in> set (concat F)"
  proof cases
    case 1
    with l show ?thesis by auto
  next
    case 2
    with l have "l \<in> set p \<union> set q" by (simp add: set_spec_resolvent)
    with 2 show ?thesis by auto
  qed
qed

lemma taut_free_eliminate: "taut_free F \<Longrightarrow> taut_free (eliminate F)"
  unfolding taut_free_def list_all_iff set_eliminate by blast

lemma eliminate_models:
  assumes A: "models A F" and tf: "taut_free F" and nz: "0 \<notin> set (concat F)"
  shows "models A (eliminate F)"
  unfolding models_def
proof
  let ?x = "\<bar>hd (hd F)\<bar>"
  fix c
  assume "c \<in> set (eliminate F)"
  then consider (rest) "c \<in> set F"
    | (new) p q where "p \<in> set F" "?x \<in> set p" "q \<in> set F" "- ?x \<in> set q"
        "c = spec_resolvent ?x p q"
    unfolding set_eliminate by blast
  then show "\<exists>l \<in> set c. lit_val A l"
  proof cases
    case rest
    with A show ?thesis by (simp add: models_def)
  next
    case new
    from new nz have x0: "?x \<noteq> 0" by (metis UN_I set_concat)
    from new tf have np: "- ?x \<notin> set p" and nq: "?x \<notin> set q"
      by (auto simp: taut_free_def list_all_iff tautological_def)
    show ?thesis
    proof (cases "lit_val A ?x")
      case True
      then have f: "\<not> lit_val A (- ?x)" using x0 by (simp add: lit_val_negate)
      from A new obtain l where l: "l \<in> set q" "lit_val A l" by (auto simp: models_def)
      with f nq have "l \<noteq> ?x" "l \<noteq> - ?x" by auto
      with l new show ?thesis by (auto simp: set_spec_resolvent)
    next
      case False
      from A new obtain l where l: "l \<in> set p" "lit_val A l" by (auto simp: models_def)
      with False np have "l \<noteq> ?x" "l \<noteq> - ?x" by auto
      with l new show ?thesis by (auto simp: set_spec_resolvent)
    qed
  qed
qed

lemma lit_val_update:
  "l \<noteq> x \<Longrightarrow> l \<noteq> - x \<Longrightarrow> 0 \<le> x \<Longrightarrow> lit_val (A(x := b)) l = lit_val A l"
  by (auto simp: lit_val_def)

lemma eliminate_satisfiable:
  assumes A: "models A (eliminate F)" and nz: "0 \<notin> set (concat F)"
  shows "satisfiable F"
proof (rule ccontr)
  let ?x = "\<bar>hd (hd F)\<bar>"
  let ?T = "A(?x := True)" and ?N = "A(?x := False)"
  assume "\<not> satisfiable F"
  then have "\<not> models ?T F" "\<not> models ?N F" by (auto simp: satisfiable_def)
  then obtain q p where q: "q \<in> set F" "\<forall>l \<in> set q. \<not> lit_val ?T l"
    and p: "p \<in> set F" "\<forall>l \<in> set p. \<not> lit_val ?N l"
    by (auto simp: models_def)
  have same: "l \<noteq> ?x \<Longrightarrow> l \<noteq> - ?x \<Longrightarrow> lit_val (A(?x := b)) l = lit_val A l" for l b
    by (rule lit_val_update) simp_all
  have rest_true: "\<exists>l \<in> set c. lit_val (A(?x := b)) l"
    if "c \<in> set F" "?x \<notin> set c" "- ?x \<notin> set c" for c b
  proof -
    from that have "c \<in> set (eliminate F)" by (simp add: set_eliminate)
    with A obtain l where l: "l \<in> set c" "lit_val A l" by (auto simp: models_def)
    with that have "l \<noteq> ?x" "l \<noteq> - ?x" by auto
    with l same show ?thesis by metis
  qed
  have pos_x: "lit_val ?T ?x" if "?x \<in> set c" "c \<in> set F" for c
  proof -
    from that nz have "?x \<noteq> 0" by (metis UN_I set_concat)
    then show ?thesis by (simp add: lit_val_def)
  qed
  have neg_x: "lit_val ?N (- ?x)" if "- ?x \<in> set c" "c \<in> set F" for c
  proof -
    from that nz have "- ?x \<noteq> 0" by (metis UN_I set_concat)
    then show ?thesis by (simp add: lit_val_def)
  qed
  from q pos_x have q1: "?x \<notin> set q" by blast
  with q rest_true [of q True] have q2: "- ?x \<in> set q" by blast
  from p neg_x have p1: "- ?x \<notin> set p" by blast
  with p rest_true [of p False] have p2: "?x \<in> set p" by blast
  let ?r = "spec_resolvent ?x p q"
  have false: "\<not> lit_val A l" if "l \<in> set ?r" for l
  proof -
    from that have l: "l \<in> set p \<union> set q" "l \<noteq> ?x" "l \<noteq> - ?x"
      by (simp_all add: set_spec_resolvent)
    then show ?thesis using p(2) q(2) same by blast
  qed
  have "\<not> tautological ?r"
  proof
    assume "tautological ?r"
    then obtain l where l: "l \<in> set ?r" "- l \<in> set ?r" by (auto simp: tautological_def)
    then have "l \<in> set (concat F)" using p(1) q(1) by (auto simp: set_spec_resolvent)
    with nz have "l \<noteq> 0" by metis
    with false [OF l(1)] false [OF l(2)] show False by (simp add: lit_val_negate)
  qed
  with p q p2 q2 have "?r \<in> set (eliminate F)" unfolding set_eliminate by blast
  with A obtain l where "l \<in> set ?r" "lit_val A l" by (auto simp: models_def)
  with false show False by blast
qed

lemma eliminate_sound:
  assumes "taut_free F" and "0 \<notin> set (concat F)"
  shows "satisfiable (eliminate F) = satisfiable F"
  using assms eliminate_models eliminate_satisfiable by (auto simp: satisfiable_def)

text \<open>
  Where no clause of the formula holds a literal together with its negation and no
  literal is 0, a run of \<open>resolve\<close> that ends at \<open>return True\<close> has a satisfiable
  formula, and one that ends at the empty-clause test has an unsatisfiable one.
\<close>

lemma resolve_sound:
  assumes "taut_free fm" and "0 \<notin> set (concat fm)"
  shows "(resolve room expired fm seen steps = No_clauses \<longrightarrow> satisfiable fm) \<and>
         (resolve room expired fm seen steps = Empty_clause \<longrightarrow> \<not> satisfiable fm)"
  using assms
proof (induction room expired fm seen steps rule: resolve.induct)
  case (1 room expired fm seen steps)
  show ?case
  proof (cases "room \<le> steps \<or> expired steps \<or> Suc steps > MAX_DP_STEPS \<or> signature fm \<in> seen")
    case True
    then show ?thesis by (subst (1 2) resolve.simps) auto
  next
    case False
    note go = this
    show ?thesis
    proof (cases "fm = []")
      case True
      then have "satisfiable fm" by (simp add: satisfiable_def models_def)
      with go True show ?thesis by (subst (1 2) resolve.simps) simp
    next
      case False
      note ne = this
      show ?thesis
      proof (cases "list_ex (\<lambda>c. length c = 0) fm")
        case True
        then have "[] \<in> set fm" by (auto simp: list_ex_iff)
        then have "\<not> satisfiable fm" by (rule empty_clause_unsatisfiable)
        with go ne True show ?thesis by (subst (1 2) resolve.simps) simp
      next
        case False
        have "taut_free (eliminate fm)" using "1.prems"(1) by (rule taut_free_eliminate)
        moreover have "0 \<notin> set (concat (eliminate fm))"
          using "1.prems"(2) literals_eliminate [of fm] by blast
        ultimately have ih:
          "(resolve room expired (eliminate fm) (insert (signature fm) seen) (Suc steps) = No_clauses
              \<longrightarrow> satisfiable (eliminate fm)) \<and>
           (resolve room expired (eliminate fm) (insert (signature fm) seen) (Suc steps) = Empty_clause
              \<longrightarrow> \<not> satisfiable (eliminate fm))"
          using go ne False by (intro "1.IH") simp_all
        have "resolve room expired fm seen steps =
            resolve room expired (eliminate fm) (insert (signature fm) seen) (Suc steps)"
          using go ne False by (subst resolve.simps) simp
        with ih eliminate_sound [OF "1.prems"] show ?thesis by simp
      qed
    qed
  qed
qed

lemma dp_solver_sound:
  assumes "taut_free F" and "0 \<notin> set (concat F)" and "dp_solver room expired F = Inr b"
  shows "b = satisfiable F"
proof -
  have nr: "resolve room expired F {} 0 \<noteq> Revisited"
    by (rule resolve_never_revisits) (simp add: left_behind_def)
  from resolve_sound [OF assms(1,2), of room expired "{}" 0] nr assms(3)
  show ?thesis by (cases "resolve room expired F {} 0") (simp_all add: dp_solver_def)
qed

lemma finite_vars: "finite (vars F)"
  by (simp add: vars_def)

text \<open>
  \<open>dp_solver\<close> returns a verdict whenever the clock does not run out and the formula
  has fewer variables than \<open>MAX_DP_STEPS\<close> and than the interpreter has room for nested
  calls: every call that continues removes a variable.
\<close>

lemma resolve_returns:
  assumes "\<forall>k. \<not> expired k" and "steps + card (vars fm) < MAX_DP_STEPS"
    and "steps + card (vars fm) < room"
    and "left_behind seen fm"
  shows "resolve room expired fm seen steps = No_clauses \<or> resolve room expired fm seen steps = Empty_clause"
  using assms
proof (induction room expired fm seen steps rule: resolve.induct)
  case (1 room expired fm seen steps)
  note fresh = left_behind_fresh [OF "1.prems"(4)]
  from "1.prems" have go: "\<not> room \<le> steps" "\<not> expired steps" "\<not> Suc steps > MAX_DP_STEPS"
    by auto
  show ?case
  proof (cases "fm = [] \<or> list_ex (\<lambda>c. length c = 0) fm")
    case True
    with go fresh show ?thesis by (subst (1 2) resolve.simps) auto
  next
    case False
    then have less: "vars (eliminate fm) \<subset> vars fm" by (simp add: vars_eliminate_less)
    then have "card (vars (eliminate fm)) < card (vars fm)"
      by (intro psubset_card_mono finite_vars)
    with "1.prems"(2,3) have "Suc steps + card (vars (eliminate fm)) < MAX_DP_STEPS"
      and "Suc steps + card (vars (eliminate fm)) < room" by simp_all
    moreover have "left_behind (insert (signature fm) seen) (eliminate fm)"
      using "1.prems"(4) False by (intro left_behind_step) simp_all
    ultimately have
      "resolve room expired (eliminate fm) (insert (signature fm) seen) (Suc steps) = No_clauses \<or>
       resolve room expired (eliminate fm) (insert (signature fm) seen) (Suc steps) = Empty_clause"
      using go fresh False "1.prems"(1) by (intro "1.IH") simp_all
    moreover have "resolve room expired fm seen steps =
        resolve room expired (eliminate fm) (insert (signature fm) seen) (Suc steps)"
      using go fresh False by (subst resolve.simps) simp
    ultimately show ?thesis by simp
  qed
qed

lemma dp_solver_decides:
  assumes "taut_free F" and "0 \<notin> set (concat F)"
    and "\<forall>k. \<not> expired k" and "card (vars F) < MAX_DP_STEPS" and "card (vars F) < room"
  shows "dp_solver room expired F = Inr (satisfiable F)"
proof -
  have "resolve room expired F {} 0 = No_clauses \<or> resolve room expired F {} 0 = Empty_clause"
    using assms(3,4,5) by (intro resolve_returns) (simp_all add: left_behind_def)
  then have "\<exists>b. dp_solver room expired F = Inr b" by (auto simp: dp_solver_def)
  then obtain b where "dp_solver room expired F = Inr b" ..
  with dp_solver_sound [OF assms(1,2)] show ?thesis by simp
qed

subsection \<open>Where the three engines agree\<close>

text \<open>
  On a formula whose literals are not 0 and whose clauses hold no literal together with
  its negation, every verdict that \<open>brute_force_solver\<close>, \<open>dp_solver\<close> and
  \<open>dpll_solver\<close> return is the same: whether the formula is satisfiable.
\<close>

lemma engines_agree_without_tautologies:
  assumes "0 \<notin> set (concat F)" and "taut_free F"
    and "brute_force_solver F = Inr b1" and "dp_solver room expired F = Inr b2"
  shows "b1 = satisfiable F \<and> b2 = satisfiable F \<and> dpll_solver F = satisfiable F"
proof -
  have "concat F \<noteq> []"
  proof
    assume "concat F = []"
    then have "max_abs_literal F = Inl ValueError"
      unfolding max_abs_literal_def by (simp only: list.map list.case)
    then have "brute_force_solver F = Inl ValueError"
      by (simp add: brute_force_solver_def)
    with assms(3) show False by simp
  qed
  with assms(1,3) have "b1 = satisfiable F" by (simp add: brute_force_solver_satisfiable)
  moreover from assms have "b2 = satisfiable F" by (intro dp_solver_sound)
  moreover from assms(1) have "dpll_solver F = satisfiable F" by (rule dpll_solver_satisfiable)
  ultimately show ?thesis by simp
qed

end
